theory Spec2Isabelle
  imports Main
begin

section \<open>Python strings\<close>

text \<open>
  A Python \<open>str\<close> is modelled as a \<open>string\<close>: one \<open>char\<close> per code point, for texts whose
  code points lie below 256. \<open>len\<close> is \<open>length\<close>.
\<close>

definition NL :: string where
  "NL = [CHR 0x0A]"

text \<open>
  \<open>str.isspace\<close> on one character, which is also what \<open>\s\<close> matches in a \<open>str\<close> pattern:
  TAB, LF, VT, FF, CR, the separators FS, GS, RS, US (0x1C to 0x1F), the space, NEL (0x85)
  and the no-break space (0xA0).
\<close>

definition isspace :: "char \<Rightarrow> bool" where
  "isspace c =
     (c \<in> {CHR 0x09, CHR 0x0A, CHR 0x0B, CHR 0x0C, CHR 0x0D, CHR 0x1C, CHR 0x1D, CHR 0x1E, CHR 0x1F,
            CHR 0x20, CHR 0x85, CHR 0xA0})"

definition lstrip :: "string \<Rightarrow> string" where
  "lstrip s = dropWhile isspace s"

definition rstrip :: "string \<Rightarrow> string" where
  "rstrip s = rev (dropWhile isspace (rev s))"

text \<open>\<open>s.strip()\<close>\<close>

definition strip :: "string \<Rightarrow> string" where
  "strip s = rstrip (lstrip s)"

text \<open>\<open>s[i:]\<close> for an integer \<open>i\<close>: a negative index counts from the end, and both ends clamp.\<close>

definition py_slice_from :: "int \<Rightarrow> 'a list \<Rightarrow> 'a list" where
  "py_slice_from i s =
     (if i < 0 then drop (nat (max 0 (int (length s) + i))) s else drop (nat i) s)"

text \<open>\<open>sep.join(parts)\<close>\<close>

fun join :: "string \<Rightarrow> string list \<Rightarrow> string" where
  "join sep [] = []"
| "join sep [p] = p"
| "join sep (p # q # ps) = p @ sep @ join sep (q # ps)"

section \<open>dbs\_ingest.py: configuration\<close>

definition MAX_CHUNK_SIZE :: int where
  "MAX_CHUNK_SIZE = 1000"

definition CHUNK_OVERLAP :: int where
  "CHUNK_OVERLAP = 150"

definition MIN_CHUNK_SIZE :: nat where
  "MIN_CHUNK_SIZE = 50"

section \<open>dbs\_ingest.py: chunk\_by\_sentences\<close>

definition sentence_end :: "char \<Rightarrow> bool" where
  "sentence_end c = (c = CHR ''.'' \<or> c = CHR ''!'' \<or> c = CHR ''?'')"

text \<open>
  \<open>re.split(r"(?<=[.!?])\s+", text)\<close>, scanning left to right. \<open>prev\<close> is the character
  before the scanning position (\<open>None\<close> at the start of the text), \<open>acc\<close> the piece being
  collected, reversed. A match starts at a whitespace character that follows one of
  \<open>.!?\<close> and takes the whole run of whitespace; the scan goes on after the run.
\<close>

function split_from :: "char option \<Rightarrow> string \<Rightarrow> string \<Rightarrow> string list" where
  "split_from prev acc [] = [rev acc]"
| "split_from prev acc (c # cs) =
     (if isspace c \<and> (case prev of None \<Rightarrow> False | Some p \<Rightarrow> sentence_end p)
      then rev acc # split_from (Some (last (c # takeWhile isspace cs))) [] (dropWhile isspace cs)
      else split_from (Some c) (c # acc) cs)"
  by pat_completeness auto
termination
  by (relation "measure (\<lambda>(prev, acc, s). length s)")
     (auto simp: less_Suc_eq_le length_dropWhile_le)

definition re_split_sentences :: "string \<Rightarrow> string list" where
  "re_split_sentences text = split_from None [] text"

text \<open>
  One pass of the loop body of \<open>chunk_by_sentences\<close>: the state is the pair
  \<open>(chunks, current_chunk)\<close>.
\<close>

definition pack_step :: "int \<Rightarrow> int \<Rightarrow> string list \<times> string \<Rightarrow> string \<Rightarrow> string list \<times> string" where
  "pack_step max_size overlap st sentence0 =
     (let chunks = fst st; current_chunk = snd st; sentence = strip sentence0 in
      if sentence = [] then (chunks, current_chunk)
      else if int (length current_chunk) + int (length sentence) > max_size \<and> current_chunk \<noteq> []
      then
        (let overlap_text =
               (if int (length current_chunk) > overlap
                then py_slice_from (- overlap) current_chunk else current_chunk)
         in (chunks @ [strip current_chunk], overlap_text @ '' '' @ sentence))
      else (chunks, strip (current_chunk @ '' '' @ sentence)))"

text \<open>The chunks collected by the loop and the final flush, before the length filter.\<close>

definition candidate_chunks :: "string \<Rightarrow> int \<Rightarrow> int \<Rightarrow> string list" where
  "candidate_chunks text max_size overlap =
     (let st = foldl (pack_step max_size overlap) ([], []) (re_split_sentences text);
          chunks = fst st; current_chunk = snd st
      in if strip current_chunk \<noteq> [] then chunks @ [strip current_chunk] else chunks)"

definition chunk_by_sentences :: "string \<Rightarrow> int \<Rightarrow> int \<Rightarrow> string list" where
  "chunk_by_sentences text max_size overlap =
     filter (\<lambda>c. length c \<ge> MIN_CHUNK_SIZE) (candidate_chunks text max_size overlap)"

text \<open>The sentence units the loop packs: the stripped, non-empty pieces of the split.\<close>

definition sentence_units :: "string \<Rightarrow> string list" where
  "sentence_units text = filter (\<lambda>s. s \<noteq> []) (map strip (re_split_sentences text))"

section \<open>dbs\_ingest.py: create\_langchain\_docs\_from\_article\<close>

text \<open>
  A scraped article is a JSON object. The keys read with \<open>.get(key, default)\<close> are fields
  that hold the default when the key is absent; \<open>url\<close> is read with \<open>article["url"]\<close>, which
  raises \<open>KeyError\<close> when the key is absent, so the field is optional.
\<close>

record faq_pair =
  question :: string
  answer :: string

record section_rec =
  heading :: string
  content :: string

record article =
  url :: "string option"
  title :: string
  category :: string
  full_text :: string
  steps :: "string list"
  faq_pairs :: "faq_pair list"
  sections :: "section_rec list"
  "notes" :: "string list"

datatype error = KeyError string

text \<open>A LangChain \<open>Document\<close>: the metadata dict keeps its keys in insertion order.\<close>

record document =
  page_content :: string
  metadata :: "(string \<times> string) list"

text \<open>\<open>doc.metadata.get(key, default)\<close>\<close>

definition metadata_get :: "document \<Rightarrow> string \<Rightarrow> string \<Rightarrow> string" where
  "metadata_get d k dflt = (case map_of (metadata d) k of None \<Rightarrow> dflt | Some v \<Rightarrow> v)"

definition chunk_type :: "document \<Rightarrow> string" where
  "chunk_type d = metadata_get d ''chunk_type'' ''unknown''"

definition context_prefix :: "string \<Rightarrow> string \<Rightarrow> string" where
  "context_prefix c t = ''['' @ c @ ''] '' @ t @ NL"

subsection \<open>1. FAQ pairs\<close>

definition faq_doc :: "string \<Rightarrow> string \<Rightarrow> string \<Rightarrow> string \<Rightarrow> string \<Rightarrow> document" where
  "faq_doc u t c q a =
     \<lparr>page_content = context_prefix c t @ ''Q: '' @ q @ NL @ ''A: '' @ a,
      metadata = [(''url'', u), (''title'', t), (''category'', c), (''chunk_type'', ''faq''),
                  (''question'', q), (''source'', u)]\<rparr>"

definition faq_step :: "string \<Rightarrow> string \<Rightarrow> string \<Rightarrow> document list \<Rightarrow> faq_pair \<Rightarrow> document list" where
  "faq_step u t c docs faq =
     (let q = strip (question faq); a = strip (answer faq)
      in if q \<noteq> [] \<and> a \<noteq> [] then docs @ [faq_doc u t c q a] else docs)"

definition faq_docs :: "string \<Rightarrow> string \<Rightarrow> string \<Rightarrow> faq_pair list \<Rightarrow> document list" where
  "faq_docs u t c faqs = foldl (faq_step u t c) [] faqs"

subsection \<open>2. Step-by-step instructions\<close>

definition steps_doc :: "string \<Rightarrow> string \<Rightarrow> string \<Rightarrow> string \<Rightarrow> document" where
  "steps_doc u t c body =
     \<lparr>page_content = body,
      metadata = [(''url'', u), (''title'', t), (''category'', c), (''chunk_type'', ''steps''),
                  (''source'', u)]\<rparr>"

text \<open>One pass of the loop over the steps: the state is \<open>(docs, step_group)\<close>.\<close>

definition steps_step ::
  "string \<Rightarrow> string \<Rightarrow> string \<Rightarrow> document list \<times> string \<Rightarrow> string \<Rightarrow> document list \<times> string" where
  "steps_step u t c st step =
     (let docs = fst st; step_group = snd st in
      if int (length step_group) + int (length step) > MAX_CHUNK_SIZE
         \<and> length step_group > length (context_prefix c t) + 30
      then (docs @ [steps_doc u t c (strip step_group)],
            (context_prefix c t @ ''How to (continued):'' @ NL) @ step @ NL)
      else (docs, step_group @ step @ NL))"

definition steps_docs :: "string \<Rightarrow> string \<Rightarrow> string \<Rightarrow> string list \<Rightarrow> document list" where
  "steps_docs u t c stps =
     (if stps = [] then []
      else
        (let st = foldl (steps_step u t c)
                    ([], context_prefix c t @ ''How to (step-by-step):'' @ NL) stps;
             docs = fst st; step_group = snd st
         in if length (strip step_group) > length (context_prefix c t) + 30
            then docs @ [steps_doc u t c (strip step_group)] else docs))"

subsection \<open>3. Sections\<close>

definition section_doc :: "string \<Rightarrow> string \<Rightarrow> string \<Rightarrow> string \<Rightarrow> string \<Rightarrow> document" where
  "section_doc u t c h body =
     \<lparr>page_content = body,
      metadata = [(''url'', u), (''title'', t), (''category'', c), (''chunk_type'', ''section''),
                  (''section_heading'', h), (''source'', u)]\<rparr>"

definition section_step ::
  "string \<Rightarrow> string \<Rightarrow> string \<Rightarrow> document list \<Rightarrow> section_rec \<Rightarrow> document list" where
  "section_step u t c docs sec =
     (let h = heading sec; body = content sec in
      if body = [] then docs
      else
        (let section_text = context_prefix c t @ h @ NL @ body in
         if int (length section_text) \<le> MAX_CHUNK_SIZE
         then docs @ [section_doc u t c h section_text]
         else docs @ map (\<lambda>sc. section_doc u t c h (context_prefix c t @ h @ NL @ sc))
                       (chunk_by_sentences body MAX_CHUNK_SIZE CHUNK_OVERLAP)))"

definition section_docs :: "string \<Rightarrow> string \<Rightarrow> string \<Rightarrow> section_rec list \<Rightarrow> document list" where
  "section_docs u t c secs = foldl (section_step u t c) [] secs"

subsection \<open>4. Full text fallback\<close>

definition text_doc :: "string \<Rightarrow> string \<Rightarrow> string \<Rightarrow> string \<Rightarrow> document" where
  "text_doc u t c body =
     \<lparr>page_content = body,
      metadata = [(''url'', u), (''title'', t), (''category'', c), (''chunk_type'', ''text''),
                  (''source'', u)]\<rparr>"

definition fallback_docs :: "string \<Rightarrow> string \<Rightarrow> string \<Rightarrow> document list \<Rightarrow> string \<Rightarrow> document list" where
  "fallback_docs u t c docs ft =
     (if docs = [] then
        (if ft \<noteq> []
         then map (\<lambda>tc. text_doc u t c (context_prefix c t @ tc))
                (chunk_by_sentences ft MAX_CHUNK_SIZE CHUNK_OVERLAP)
         else [])
      else [])"

subsection \<open>5. Important notes\<close>

definition note_doc :: "string \<Rightarrow> string \<Rightarrow> string \<Rightarrow> string \<Rightarrow> document" where
  "note_doc u t c body =
     \<lparr>page_content = body,
      metadata = [(''url'', u), (''title'', t), (''category'', c), (''chunk_type'', ''note''),
                  (''source'', u)]\<rparr>"

definition note_step :: "string \<Rightarrow> string \<Rightarrow> string \<Rightarrow> document list \<Rightarrow> string \<Rightarrow> document list" where
  "note_step u t c docs note =
     (if length note \<ge> MIN_CHUNK_SIZE
      then docs @ [note_doc u t c (context_prefix c t @ ''Important: '' @ note)] else docs)"

definition note_docs :: "string \<Rightarrow> string \<Rightarrow> string \<Rightarrow> string list \<Rightarrow> document list" where
  "note_docs u t c ns = foldl (note_step u t c) [] ns"

subsection \<open>The chunker\<close>

text \<open>The documents of strategies 1 to 3, which is \<open>docs\<close> when the fallback test runs.\<close>

definition structured_docs :: "string \<Rightarrow> article \<Rightarrow> document list" where
  "structured_docs u a =
     faq_docs u (title a) (category a) (faq_pairs a)
     @ steps_docs u (title a) (category a) (steps a)
     @ section_docs u (title a) (category a) (sections a)"

definition create_langchain_docs_from_article :: "article \<Rightarrow> error + document list" where
  "create_langchain_docs_from_article a =
     (case url a of
        None \<Rightarrow> Inl (KeyError ''url'')
      | Some u \<Rightarrow>
          (let docs = structured_docs u a;
               docs = docs @ fallback_docs u (title a) (category a) docs (full_text a);
               docs = docs @ note_docs u (title a) (category a) (notes a)
           in Inr docs))"

section \<open>dbs\_chatbot\_st.py: format\_docs\<close>

definition format_doc :: "document \<Rightarrow> string" where
  "format_doc doc =
     (let source = metadata_get doc ''url'' []; ttl = metadata_get doc ''title'' []
      in ''[Source: '' @ ttl @ '']'' @ NL @ page_content doc @ NL @ ''(URL: '' @ source @ '')'')"

definition format_docs :: "document list \<Rightarrow> string" where
  "format_docs docs =
     join (NL @ NL @ ''---'' @ NL @ NL) (foldl (\<lambda>formatted doc. formatted @ [format_doc doc]) [] docs)"

section \<open>dbs\_scraper.py: clean\_text\<close>

text \<open>\<open>re.sub(r"\s+", " ", text)\<close>: every maximal run of whitespace becomes one space.\<close>

function sub_whitespace :: "string \<Rightarrow> string" where
  "sub_whitespace [] = []"
| "sub_whitespace (c # cs) =
     (if isspace c then CHR '' '' # sub_whitespace (dropWhile isspace cs)
      else c # sub_whitespace cs)"
  by pat_completeness auto
termination
  by (relation "measure length") (auto simp: less_Suc_eq_le length_dropWhile_le)

definition clean_text :: "string \<Rightarrow> string" where
  "clean_text text = strip (sub_whitespace text)"

text \<open>
  \<open>s.replace(old, new)\<close>: the occurrences of \<open>old\<close> are replaced from left to right without
  overlap; an empty \<open>old\<close> matches before every character and at the end.
\<close>

function py_replace :: "string \<Rightarrow> string \<Rightarrow> string \<Rightarrow> string" where
  "py_replace old new [] = (if old = [] then new else [])"
| "py_replace old new (c # cs) =
     (if old = [] then new @ c # py_replace old new cs
      else if take (length old) (c # cs) = old
      then new @ py_replace old new (drop (length old) (c # cs))
      else c # py_replace old new cs)"
  by pat_completeness auto
termination
  by (relation "measure (\<lambda>(old, new, s). length s)") auto

text \<open>\<open>s.endswith("?")\<close>\<close>

definition endswith_qmark :: "string \<Rightarrow> bool" where
  "endswith_qmark s = (s \<noteq> [] \<and> last s = CHR ''?'')"

section \<open>dbs\_scraper.py: extract\_page\_content\<close>

text \<open>
  The parsed page is a BeautifulSoup tree, which is not code of the repository. The
  extractor reads it through a fixed set of queries, and the model takes their results as
  its input: a sibling element is its tag name and its \<open>get_text()\<close>.
\<close>

record element =
  tag_name :: string
  tag_text :: string

text \<open>
  \<^item> \<open>h1_text\<close>: \<open>soup.find("h1").get_text()\<close>, \<open>None\<close> when the page has no \<open>h1\<close>;
  \<^item> \<open>title_text\<close>: \<open>soup.find("title").get_text()\<close>, \<open>None\<close> when there is no \<open>title\<close>;
  \<^item> \<open>main_text\<close>: \<open>main.get_text()\<close> of the main content region once its \<open>nav\<close>,
    \<open>footer\<close>, \<open>header\<close>, \<open>script\<close>, \<open>style\<close> and \<open>noscript\<close> subtrees are removed, \<open>None\<close>
    when no region is found;
  \<^item> \<open>step_texts\<close>: for each string of the page that matches \<open>^Step \d+\<close>, in document
    order, the text of its parent;
  \<^item> \<open>question_tags\<close>: for each \<open>strong\<close>, \<open>b\<close>, \<open>h3\<close> or \<open>h4\<close> element, its text and the
    chain of \<open>find_next_sibling()\<close> that starts from its parent;
  \<^item> \<open>heading_tags\<close>: for each \<open>h2\<close> or \<open>h3\<close> element, its text and the chain of
    \<open>find_next_sibling()\<close> that starts from it;
  \<^item> \<open>note_texts\<close>: the text of each element whose class matches the pattern of notes.
\<close>

record soup =
  h1_text :: "string option"
  title_text :: "string option"
  main_text :: "string option"
  step_texts :: "string list"
  question_tags :: "(string \<times> element list) list"
  heading_tags :: "(string \<times> element list) list"
  note_texts :: "string list"

subsection \<open>Title\<close>

definition extract_title :: "soup \<Rightarrow> string" where
  "extract_title sp =
     (case h1_text sp of
        Some h1 \<Rightarrow> clean_text h1
      | None \<Rightarrow>
          (case title_text sp of
             Some tt \<Rightarrow> py_replace '' | DBS Singapore'' [] (clean_text tt)
           | None \<Rightarrow> []))"

subsection \<open>Steps\<close>

definition extract_steps_step :: "string list \<Rightarrow> string \<Rightarrow> string list" where
  "extract_steps_step stps raw =
     (let step_text = clean_text raw
      in if step_text \<noteq> [] \<and> length step_text > 5 then stps @ [step_text] else stps)"

subsection \<open>FAQ pairs\<close>

text \<open>The \<open>while\<close> loop over the siblings that follow a question.\<close>

fun collect_answer :: "string list \<Rightarrow> element list \<Rightarrow> string list" where
  "collect_answer answer_parts [] = answer_parts"
| "collect_answer answer_parts (sibling # siblings) =
     (if tag_name sibling \<in> set [''h1'', ''h2'', ''h3'', ''h4''] then answer_parts
      else
        (let sib_text = clean_text (tag_text sibling) in
         if sib_text = [] then answer_parts
         else if endswith_qmark sib_text \<and> length sib_text > 10 then answer_parts
         else
           (let answer_parts = answer_parts @ [sib_text] in
            if length answer_parts \<ge> 5 then answer_parts
            else collect_answer answer_parts siblings)))"

definition extract_faq_step :: "faq_pair list \<Rightarrow> string \<times> element list \<Rightarrow> faq_pair list" where
  "extract_faq_step faqs strong =
     (let txt = clean_text (fst strong) in
      if endswith_qmark txt \<and> length txt > 10
      then
        (let answer_parts = collect_answer [] (snd strong) in
         if answer_parts \<noteq> []
         then faqs @ [\<lparr>question = txt, answer = join '' '' answer_parts\<rparr>]
         else faqs)
      else faqs)"

subsection \<open>Sections\<close>

fun collect_content :: "string list \<Rightarrow> element list \<Rightarrow> string list" where
  "collect_content content_parts [] = content_parts"
| "collect_content content_parts (sibling # siblings) =
     (if tag_name sibling \<in> set [''h2'', ''h3''] then content_parts
      else
        (let txt = clean_text (tag_text sibling) in
         collect_content
           (if txt \<noteq> [] \<and> length txt > 3 then content_parts @ [txt] else content_parts)
           siblings))"

definition extract_section_step ::
  "section_rec list \<Rightarrow> string \<times> element list \<Rightarrow> section_rec list" where
  "extract_section_step secs hd_tag =
     (let heading_text = clean_text (fst hd_tag) in
      if heading_text = []
         \<or> heading_text \<in> set [''Popular Articles'', ''Popular Guides'', ''Popular Article'']
      then secs
      else
        (let content_parts = collect_content [] (snd hd_tag) in
         if content_parts \<noteq> []
         then secs @ [\<lparr>heading = heading_text, content = join '' '' content_parts\<rparr>]
         else secs))"

subsection \<open>Full text and notes\<close>

definition extract_full_text :: "soup \<Rightarrow> string" where
  "extract_full_text sp = (case main_text sp of Some m \<Rightarrow> clean_text m | None \<Rightarrow> [])"

definition extract_notes_step :: "string list \<Rightarrow> string \<Rightarrow> string list" where
  "extract_notes_step nts raw =
     (let note_text = clean_text raw
      in if note_text \<noteq> [] \<and> length note_text > 10 then nts @ [note_text] else nts)"

subsection \<open>The record\<close>

text \<open>
  The returned dict, without its \<open>scraped_at\<close> timestamp. \<open>full_text[:15000]\<close> is the
  first 15000 characters.
\<close>

definition extract_page_content :: "soup \<Rightarrow> string \<Rightarrow> string \<Rightarrow> article" where
  "extract_page_content sp u c =
     \<lparr>url = Some u,
      title = extract_title sp,
      category = c,
      full_text = take 15000 (extract_full_text sp),
      steps = foldl extract_steps_step [] (step_texts sp),
      faq_pairs = foldl extract_faq_step [] (question_tags sp),
      sections = foldl extract_section_step [] (heading_tags sp),
      notes = foldl extract_notes_step [] (note_texts sp)\<rparr>"

section \<open>Auxiliary notions for the properties\<close>

text \<open>
  The soft size bound of a packed chunk: within \<open>max_size\<close> up to the joining space, or
  an overlap seed, a space and one of the sentence units \<open>U\<close>.
\<close>

definition within :: "int \<Rightarrow> int \<Rightarrow> string set \<Rightarrow> string \<Rightarrow> bool" where
  "within max_size overlap U c =
     (int (length c) \<le> max_size + 1 \<or> (\<exists>s\<in>U. int (length c) \<le> overlap + 1 + int (length s)))"

text \<open>Three sentences of 55 characters each.\<close>

definition three_sentences :: string where
  "three_sentences =
     ''aaaaaaaaaaaaaaaaaaaaaaaaaaaaaaaaaaaaaaaaaaaaaaaaaaaaaa. '' @
     ''bbbbbbbbbbbbbbbbbbbbbbbbbbbbbbbbbbbbbbbbbbbbbbbbbbbbbb. '' @
     ''cccccccccccccccccccccccccccccccccccccccccccccccccccccc.''"

text \<open>Articles for the scenarios.\<close>

definition short_article :: article where
  "short_article =
     \<lparr>url = Some ''https://www.dbs.com.sg/a'', title = ''Fees'', category = ''Cards'',
      full_text = ''Fees apply from 1 January 2024'', steps = [], faq_pairs = [], sections = [],
      notes = []\<rparr>"

definition plain_article :: article where
  "plain_article =
     \<lparr>url = Some ''https://www.dbs.com.sg/b'', title = ''Fees'', category = ''Cards'',
      full_text = three_sentences, steps = [], faq_pairs = [], sections = [], notes = []\<rparr>"

definition faq_article :: article where
  "faq_article =
     \<lparr>url = Some ''https://www.dbs.com.sg/c'', title = ''PayNow FAQ'', category = ''Banking'',
      full_text = [], steps = [],
      faq_pairs = [\<lparr>question = ''What is PayNow?'', answer = ''  ''\<rparr>,
                   \<lparr>question = '' Is it free? '', answer = ''Yes.''\<rparr>],
      sections = [], notes = []\<rparr>"

text \<open>A chunk whose content starts with the context line of its article.\<close>

definition prefixed :: "string \<Rightarrow> string \<Rightarrow> document \<Rightarrow> bool" where
  "prefixed c t d = (\<exists>r. page_content d = context_prefix c t @ r)"

text \<open>
  The invariant of the loop over the steps: the buffer starts with the context line and a
  running header, and the chunks flushed so far start with the context line.
\<close>

definition steps_inv :: "string \<Rightarrow> string \<Rightarrow> document list \<times> string \<Rightarrow> bool" where
  "steps_inv c t st =
     ((\<exists>tail. snd st = context_prefix c t @ ''How to ('' @ tail) \<and>
      (\<forall>d\<in>set (fst st). prefixed c t d))"

definition long_step_article :: article where
  "long_step_article =
     \<lparr>url = Some ''https://www.dbs.com.sg/d'', title = [], category = [],
      full_text = [], steps = [''Step 1: ab'', replicate 990 CHR ''x''], faq_pairs = [],
      sections = [], notes = []\<rparr>"

definition mixed_article :: article where
  "mixed_article =
     \<lparr>url = Some ''https://www.dbs.com.sg/e'', title = ''Activate card'', category = ''Cards'',
      full_text = ''Activate your card in the app.'',
      steps = [''Step 1: Log in to digibank.'', ''Step 2: Tap Activate Card. ''],
      faq_pairs = [\<lparr>question = ''Is activation free?'', answer = ''Yes.''\<rparr>],
      sections = [\<lparr>heading = ''Before you start'', content = ''Have your card ready.''\<rparr>],
      notes = [''Activate the card within 30 days of receiving it in the mail.'']\<rparr>"

text \<open>
  Whitespace-normalized text: no two whitespace characters in a row, and none at either end.
\<close>

fun no_ws_run :: "string \<Rightarrow> bool" where
  "no_ws_run [] = True"
| "no_ws_run [c] = True"
| "no_ws_run (a # b # cs) = (\<not> (isspace a \<and> isspace b) \<and> no_ws_run (b # cs))"

definition normalized :: "string \<Rightarrow> bool" where
  "normalized s = (no_ws_run s \<and> (s = [] \<or> (\<not> isspace (hd s) \<and> \<not> isspace (last s))))"

text \<open>Text that can follow any character: no whitespace run, none at the end.\<close>

definition tail_clean :: "string \<Rightarrow> bool" where
  "tail_clean s = (no_ws_run s \<and> (s = [] \<or> \<not> isspace (last s)))"

text \<open>Pages for the scenarios of the extractor.\<close>

definition long_soup :: soup where
  "long_soup =
     \<lparr>h1_text = Some ''Fees'', title_text = None,
      main_text = Some (replicate 14999 CHR ''a'' @ '' b''),
      step_texts = [], question_tags = [], heading_tags = [], note_texts = []\<rparr>"

definition sample_soup :: soup where
  "sample_soup =
     \<lparr>h1_text = None, title_text = Some '' Digibank   help | DBS Singapore '',
      main_text = Some ''  Hello   world. '',
      step_texts = [''Step 1:   Log in'', ''Step''],
      question_tags =
        [(''How do I pay?'',
          [\<lparr>tag_name = ''p'', tag_text = '' Use  PayNow. ''\<rparr>,
           \<lparr>tag_name = ''p'', tag_text = ''Or cash.''\<rparr>,
           \<lparr>tag_name = ''h2'', tag_text = ''Next''\<rparr>])],
      heading_tags =
        [(''Fees '',
          [\<lparr>tag_name = ''p'', tag_text = '' None  at all. ''\<rparr>,
           \<lparr>tag_name = ''h3'', tag_text = ''x''\<rparr>])],
      note_texts = ['' Note:   keep  your PIN safe '']\<rparr>"

text \<open>A chunk whose metadata has the url of its article as \<open>url\<close> and as \<open>source\<close>.\<close>

definition stamped :: "string \<Rightarrow> document \<Rightarrow> bool" where
  "stamped u d = (metadata_get d ''url'' [] = u \<and> metadata_get d ''source'' [] = u)"


section \<open>Properties of the string operations\<close>

lemma length_lstrip_le: "length (lstrip s) \<le> length s"
  by (simp add: lstrip_def length_dropWhile_le)

lemma length_rstrip_le: "length (rstrip s) \<le> length s"
  using length_dropWhile_le [of isspace "rev s"] by (simp add: rstrip_def)

lemma length_strip_le: "length (strip s) \<le> length s"
  using length_rstrip_le [of "lstrip s"] length_lstrip_le [of s] by (simp add: strip_def)

lemma length_py_slice_tail:
  "0 < k \<Longrightarrow> int (length (py_slice_from (- k) s)) \<le> k"
  by (auto simp: py_slice_from_def)

lemma strip_Nil: "strip [] = []"
  by (simp add: strip_def lstrip_def rstrip_def)

lemma rstrip_split: "s = rstrip s @ rev (takeWhile isspace (rev s))"
proof -
  have "rev (takeWhile isspace (rev s) @ dropWhile isspace (rev s)) = s" by simp
  then show ?thesis by (simp only: rev_append rstrip_def)
qed

lemma lstrip_id: "s \<noteq> [] \<Longrightarrow> \<not> isspace (hd s) \<Longrightarrow> lstrip s = s"
  by (cases s) (simp_all add: lstrip_def)

lemma rstrip_keep: "s \<noteq> [] \<Longrightarrow> \<not> isspace (last s) \<Longrightarrow> rstrip (a @ s) = a @ s"
proof -
  assume "s \<noteq> []" and "\<not> isspace (last s)"
  then have "rev s \<noteq> []" and "\<not> isspace (hd (rev s))" by (simp_all add: hd_rev)
  then have "dropWhile isspace (rev s @ rev a) = rev s @ rev a"
    by (cases "rev s") simp_all
  then show ?thesis by (simp add: rstrip_def)
qed

lemma rstrip_id: "s \<noteq> [] \<Longrightarrow> \<not> isspace (last s) \<Longrightarrow> rstrip s = s"
  using rstrip_keep [of s "[]"] by simp

lemma rstrip_last: "rstrip s \<noteq> [] \<Longrightarrow> \<not> isspace (last (rstrip s))"
proof -
  assume ne: "rstrip s \<noteq> []"
  then have "dropWhile isspace (rev s) \<noteq> []" by (simp add: rstrip_def)
  then have "\<not> isspace (hd (dropWhile isspace (rev s)))" by (rule hd_dropWhile)
  moreover have "last (rstrip s) = hd (dropWhile isspace (rev s))"
    by (simp add: rstrip_def last_rev)
  ultimately show ?thesis by simp
qed

lemma rstrip_hd: "rstrip s \<noteq> [] \<Longrightarrow> hd (rstrip s) = hd s"
  using rstrip_split [of s] by (metis hd_append2)

lemma strip_ends:
  assumes "strip x \<noteq> []"
  shows "\<not> isspace (hd (strip x))" and "\<not> isspace (last (strip x))"
proof -
  have ne: "rstrip (lstrip x) \<noteq> []" using assms by (simp add: strip_def)
  then have "lstrip x \<noteq> []" using rstrip_split [of "lstrip x"] by auto
  then have "\<not> isspace (hd (lstrip x))" unfolding lstrip_def by (rule hd_dropWhile)
  then show "\<not> isspace (hd (strip x))" using rstrip_hd [OF ne] by (simp add: strip_def)
  show "\<not> isspace (last (strip x))" using rstrip_last [OF ne] by (simp add: strip_def)
qed

lemma lstrip_join:
  assumes "s \<noteq> []" and "\<not> isspace (hd s)"
  shows "lstrip (cur @ '' '' @ s) = (if lstrip cur = [] then s else lstrip cur @ '' '' @ s)"
proof (cases "\<forall>c\<in>set cur. isspace c")
  case True
  then have "lstrip cur = []" by (simp add: lstrip_def)
  moreover have "dropWhile isspace (cur @ '' '' @ s) = dropWhile isspace ('' '' @ s)"
    using True by (simp add: dropWhile_append)
  moreover have "dropWhile isspace ('' '' @ s) = s"
    using assms by (cases s) (simp_all add: isspace_def)
  ultimately show ?thesis by (simp add: lstrip_def)
next
  case False
  then have "lstrip cur \<noteq> []" by (simp add: lstrip_def)
  moreover have "dropWhile isspace (cur @ '' '' @ s) = dropWhile isspace cur @ '' '' @ s"
    using False by (auto intro: dropWhile_append1)
  ultimately show ?thesis by (simp add: lstrip_def)
qed

lemma strip_join:
  assumes "strip x \<noteq> []"
  shows "strip (cur @ '' '' @ strip x) =
           (if lstrip cur = [] then strip x else lstrip cur @ '' '' @ strip x)"
proof -
  note e = strip_ends [OF assms]
  have l: "lstrip (cur @ '' '' @ strip x) =
           (if lstrip cur = [] then strip x else lstrip cur @ '' '' @ strip x)"
    using assms e(1) by (rule lstrip_join)
  have r1: "rstrip (strip x) = strip x" using assms e(2) by (rule rstrip_id)
  have r2: "rstrip ((lstrip cur @ '' '') @ strip x) = (lstrip cur @ '' '') @ strip x"
    using assms e(2) by (rule rstrip_keep)
  show ?thesis unfolding strip_def [of "cur @ '' '' @ strip x"] l using r1 r2 by simp
qed

lemma py_slice_from_tail:
  "0 < k \<Longrightarrow> py_slice_from (- k) s = drop (length s - nat k) s"
  by (auto simp: py_slice_from_def max_def nat_diff_distrib' intro: arg_cong [where f = "\<lambda>n. drop n s"])

lemma rstrip_append_keep:
  assumes "a \<noteq> []" and "\<not> isspace (last a)"
  shows "rstrip (a @ b) = a @ rstrip b"
proof -
  have hd: "rev a \<noteq> []" "\<not> isspace (hd (rev a))" using assms by (simp_all add: hd_rev)
  then have keep: "dropWhile isspace (rev a) = rev a" by (cases "rev a") simp_all
  show ?thesis
  proof (cases "\<forall>x\<in>set (rev b). isspace x")
    case True
    then have "dropWhile isspace (rev b @ rev a) = rev a" "dropWhile isspace (rev b) = []"
      using keep by (simp_all add: dropWhile_append)
    then show ?thesis by (simp add: rstrip_def)
  next
    case False
    then have "dropWhile isspace (rev b @ rev a) = dropWhile isspace (rev b) @ rev a"
      by (auto intro: dropWhile_append1)
    then show ?thesis by (simp add: rstrip_def)
  qed
qed

lemma strip_append_keep:
  assumes "a \<noteq> []" and "\<not> isspace (hd a)" and "\<not> isspace (last a)"
  shows "strip (a @ b) = a @ rstrip b"
proof -
  have "lstrip (a @ b) = a @ b" using assms(1,2) by (intro lstrip_id) simp_all
  then show ?thesis using rstrip_append_keep [OF assms(1,3)] by (simp add: strip_def)
qed

section \<open>Properties of chunk\_by\_sentences\<close>

subsection \<open>The size of a packed chunk\<close>

lemma within_mono: "within m ov U c \<Longrightarrow> U \<subseteq> V \<Longrightarrow> within m ov V c"
  by (auto simp: within_def)

lemma within_shorter: "within m ov U c \<Longrightarrow> length d \<le> length c \<Longrightarrow> within m ov U d"
  unfolding within_def by (meson dual_order.trans of_nat_mono)  

lemma pack_step_within:
  assumes ov: "0 < ov"
    and cur: "snd st = [] \<or> within m ov U (snd st)"
    and chunks: "\<forall>c\<in>set (fst st). within m ov U c"
    and U: "strip x \<noteq> [] \<Longrightarrow> strip x \<in> U"
  shows "(snd (pack_step m ov st x) = [] \<or> within m ov U (snd (pack_step m ov st x))) \<and>
         (\<forall>c\<in>set (fst (pack_step m ov st x)). within m ov U c)"
proof (cases "strip x = []")
  case True
  then show ?thesis using cur chunks by (simp add: pack_step_def)
next
  case False
  then have xU: "strip x \<in> U" using U by simp
  define full where "full = (int (length (snd st)) + int (length (strip x)) > m \<and> snd st \<noteq> [])"
  show ?thesis
  proof (cases full)
    case True
    define seed where "seed = (if int (length (snd st)) > ov
                then py_slice_from (- ov) (snd st) else snd st)"
    have ovl: "int (length seed) \<le> ov"
      using length_py_slice_tail [OF ov, of "snd st"] by (simp add: seed_def)
    have new: "within m ov U (seed @ '' '' @ strip x)"
      unfolding within_def using ovl xU by (intro disjI2 bexI [of _ "strip x"]) simp_all
    have "within m ov U (snd st)" using cur True by (simp add: full_def)
    then have old: "within m ov U (strip (snd st))"
      using length_strip_le [of "snd st"] by (rule within_shorter)
    have "pack_step m ov st x = (fst st @ [strip (snd st)], seed @ '' '' @ strip x)"
      using True False by (simp add: pack_step_def Let_def full_def seed_def)
    then show ?thesis using new old chunks by simp
  next
    case no: False
    have "within m ov U (snd st @ '' '' @ strip x)"
    proof (cases "snd st = []")
      case True
      then show ?thesis unfolding within_def using xU ov
        by (intro disjI2 bexI [of _ "strip x"]) simp_all
    next
      case False
      then show ?thesis using no by (simp add: within_def full_def)
    qed
    then have new: "within m ov U (strip (snd st @ '' '' @ strip x))"
      using length_strip_le by (rule within_shorter)
    have "pack_step m ov st x = (fst st, strip (snd st @ '' '' @ strip x))"
      using no False unfolding pack_step_def Let_def full_def by (simp only: if_False fst_conv snd_conv)
    then show ?thesis using new chunks by simp
  qed
qed

lemma foldl_pack_step_within:
  assumes ov: "0 < ov"
    and U: "\<forall>x\<in>set xs. strip x \<noteq> [] \<longrightarrow> strip x \<in> U"
    and cur: "snd st = [] \<or> within m ov U (snd st)"
    and chunks: "\<forall>c\<in>set (fst st). within m ov U c"
  shows "(snd (foldl (pack_step m ov) st xs) = [] \<or> within m ov U (snd (foldl (pack_step m ov) st xs))) \<and>
         (\<forall>c\<in>set (fst (foldl (pack_step m ov) st xs)). within m ov U c)"
  using U cur chunks
proof (induction xs arbitrary: st)
  case Nil
  then show ?case by simp
next
  case (Cons x xs)
  have "(snd (pack_step m ov st x) = [] \<or> within m ov U (snd (pack_step m ov st x))) \<and>
         (\<forall>c\<in>set (fst (pack_step m ov st x)). within m ov U c)"
    using Cons.prems by (intro pack_step_within [OF ov]) simp_all
  then show ?case using Cons.IH [of "pack_step m ov st x"] Cons.prems(1) by simp
qed

lemma candidate_chunks_within:
  assumes ov: "0 < ov" and c: "c \<in> set (candidate_chunks txt m ov)"
  shows "within m ov (set (sentence_units txt)) c"
proof -
  let ?U = "set (sentence_units txt)"
  let ?st = "foldl (pack_step m ov) ([], []) (re_split_sentences txt)"
  have inv: "(snd ?st = [] \<or> within m ov ?U (snd ?st)) \<and> (\<forall>c\<in>set (fst ?st). within m ov ?U c)"
    by (rule foldl_pack_step_within [OF ov]) (auto simp: sentence_units_def)
  have "strip (snd ?st) \<noteq> [] \<Longrightarrow> within m ov ?U (strip (snd ?st))"
  proof -
    assume "strip (snd ?st) \<noteq> []"
    then have "snd ?st \<noteq> []" using strip_Nil by auto
    then have "within m ov ?U (snd ?st)" using inv by simp
    then show ?thesis using length_strip_le by (rule within_shorter)
  qed
  then show ?thesis using c inv
    by (auto simp: candidate_chunks_def Let_def split: if_splits)
qed

text \<open>
  Claim C1, as the code has it. The claim as stated (every chunk but the last has length at
  most \<open>max_size\<close> unless one sentence alone is longer) fails: the overflow test adds the
  lengths of buffer and sentence without the joining space, and a new buffer starts with the
  overlap seed of the closed one without any test. With three sentences of 55 characters,
  \<open>max_size = 60\<close> and \<open>overlap = 20\<close>, no sentence is longer than 60 and the second of the
  three chunks has 76 characters.
\<close>

theorem chunk_by_sentences_hard_bound_counterexample:
  "map length (sentence_units three_sentences) = [55, 55, 55] \<and>
   map length (chunk_by_sentences three_sentences 60 20) = [55, 76, 76]"
  by code_simp

text \<open>
  Claim C1, amended: for a positive \<open>overlap\<close>, every chunk that \<open>chunk_by_sentences\<close>
  returns, the last one included, has at most \<open>max_size + 1\<close> characters, or at most
  \<open>overlap + 1\<close> characters more than one of the sentence units of the text.
\<close>

theorem chunk_by_sentences_soft_bound:
  assumes "0 < overlap" and "c \<in> set (chunk_by_sentences txt max_size overlap)"
  shows "int (length c) \<le> max_size + 1 \<or>
         (\<exists>s\<in>set (sentence_units txt). int (length c) \<le> overlap + 1 + int (length s))"
proof -
  have "c \<in> set (candidate_chunks txt max_size overlap)"
    using assms(2) by (simp add: chunk_by_sentences_def)
  with assms(1) have "within max_size overlap (set (sentence_units txt)) c"
    by (rule candidate_chunks_within)
  then show ?thesis by (simp add: within_def)
qed

theorem chunk_by_sentences_soft_bound_witness:
  "(0::int) < 20 \<and>
   ''aaaaaaaaaaaaaaaaaaa. bbbbbbbbbbbbbbbbbbbbbbbbbbbbbbbbbbbbbbbbbbbbbbbbbbbbbb.''
     \<in> set (chunk_by_sentences three_sentences 60 20) \<and>
   int (length ''aaaaaaaaaaaaaaaaaaa. bbbbbbbbbbbbbbbbbbbbbbbbbbbbbbbbbbbbbbbbbbbbbbbbbbbbbb.'')
     \<le> 20 + 1 + 55"
proof -
  have pos: "(0::int) < 20" by simp
  have mem: "''aaaaaaaaaaaaaaaaaaa. bbbbbbbbbbbbbbbbbbbbbbbbbbbbbbbbbbbbbbbbbbbbbbbbbbbbbb.''
     \<in> set (chunk_by_sentences three_sentences 60 20)"
    by code_simp
  have units: "\<forall>s\<in>set (sentence_units three_sentences). length s = 55"
    by code_simp
  show ?thesis using pos mem units chunk_by_sentences_soft_bound [OF pos mem] by auto
qed

subsection \<open>The minimum length\<close>

text \<open>
  Claim C7: the result of \<open>chunk_by_sentences\<close> is the list of candidate chunks without
  those shorter than \<open>MIN_CHUNK_SIZE = 50\<close>, so every chunk returned has at least 50
  characters.
\<close>

theorem chunk_by_sentences_min_size:
  "chunk_by_sentences txt max_size overlap =
     filter (\<lambda>c. 50 \<le> length c) (candidate_chunks txt max_size overlap) \<and>
   (\<forall>c\<in>set (chunk_by_sentences txt max_size overlap). 50 \<le> length c)"
  by (simp add: chunk_by_sentences_def MIN_CHUNK_SIZE_def)

theorem chunk_by_sentences_min_size_witness:
  "''aaaaaaaaaaaaaaaaaaaaaaaaaaaaaaaaaaaaaaaaaaaaaaaaaaaaaa.''
     \<in> set (chunk_by_sentences three_sentences 60 20) \<and>
   50 \<le> length ''aaaaaaaaaaaaaaaaaaaaaaaaaaaaaaaaaaaaaaaaaaaaaaaaaaaaaa.''"
proof -
  have "''aaaaaaaaaaaaaaaaaaaaaaaaaaaaaaaaaaaaaaaaaaaaaaaaaaaaaa.''
     \<in> set (chunk_by_sentences three_sentences 60 20)"
    by code_simp
  then show ?thesis
    using chunk_by_sentences_min_size [of three_sentences 60 20] by blast
qed

subsection \<open>One pass of the packing loop\<close>

text \<open>
  Claim C6, as the code has it. The claim as stated fails where buffer and sentence
  together have exactly \<open>max_size\<close> characters: joined by a space they have one more, yet the
  test of the code leaves the space out and joins them. With \<open>max_size = 10\<close>, the buffer
  \<open>aaaa.\<close> and the sentence \<open>bbbb.\<close> give a buffer of 11 characters and no closed chunk.
\<close>

theorem pack_step_overflow_counterexample:
  "10 < int (length (''aaaa.'' @ '' '' @ ''bbbb.'')) \<and>
   pack_step 10 3 ([], ''aaaa.'') ''bbbb.'' = ([], ''aaaa. bbbb.'') \<and>
   candidate_chunks ''aaaa. bbbb.'' 10 3 = [''aaaa. bbbb.'']"
  by code_simp

text \<open>
  Claim C6, amended: for a positive \<open>overlap\<close> and a sentence that is not empty once
  stripped, when the buffer is not empty and the lengths of buffer and sentence (the joining
  space not counted) add up to more than \<open>max_size\<close>, the stripped buffer is closed as one
  chunk and the next buffer is the last \<open>overlap\<close> characters of the closed buffer (all of
  it when it has no more than \<open>overlap\<close>), a space and the sentence; otherwise no chunk is
  closed and the buffer becomes the sentence, after the buffer without its leading
  whitespace and a space when that is not empty.
\<close>

theorem pack_step_cases:
  assumes "0 < overlap" and "strip x \<noteq> []"
  shows "pack_step max_size overlap (chunks, cur) x =
     (if cur \<noteq> [] \<and> max_size < int (length cur) + int (length (strip x))
      then (chunks @ [strip cur], drop (length cur - nat overlap) cur @ '' '' @ strip x)
      else (chunks, if lstrip cur = [] then strip x else lstrip cur @ '' '' @ strip x))"
proof -
  have seed: "(if int (length cur) > overlap then py_slice_from (- overlap) cur else cur)
                = drop (length cur - nat overlap) cur"
    using assms(1) by (simp add: py_slice_from_tail)
  show ?thesis
    unfolding pack_step_def Let_def fst_conv snd_conv seed strip_join [OF assms(2)]
    using assms(2) by auto
qed

theorem pack_step_cases_witness:
  "(0::int) < 3 \<and> strip ''ccccc.'' \<noteq> [] \<and>
   pack_step 10 3 ([], ''aaaa. bbbb.'') ''ccccc.'' = ([''aaaa. bbbb.''], ''bb. ccccc.'')"
proof -
  have pos: "(0::int) < 3" by simp
  have ne: "strip ''ccccc.'' \<noteq> []" by code_simp
  have "(if ''aaaa. bbbb.'' \<noteq> [] \<and>
            10 < int (length ''aaaa. bbbb.'') + int (length (strip ''ccccc.''))
         then ([] @ [strip ''aaaa. bbbb.''],
               drop (length ''aaaa. bbbb.'' - nat 3) ''aaaa. bbbb.'' @ '' '' @ strip ''ccccc.'')
         else ([], if lstrip ''aaaa. bbbb.'' = [] then strip ''ccccc.''
                   else lstrip ''aaaa. bbbb.'' @ '' '' @ strip ''ccccc.''))
        = ([''aaaa. bbbb.''], ''bb. ccccc.'')"
    by code_simp
  then show ?thesis
    using pos ne pack_step_cases [OF pos ne, of 10 "[]" "''aaaa. bbbb.''"] by simp
qed

section \<open>Properties of create\_langchain\_docs\_from\_article\<close>

subsection \<open>The strategies as lists\<close>

lemma strip_step_group:
  "strip (context_prefix c t @ ''How to ('' @ tail) = context_prefix c t @ ''How to ('' @ rstrip tail"
  using strip_append_keep [of "context_prefix c t @ ''How to (''" tail]
  by (simp add: context_prefix_def isspace_def)

lemma foldl_append_step:
  assumes "\<And>acc x. f acc x = acc @ g x"
  shows "foldl f acc xs = acc @ concat (map g xs)"
  by (induction xs arbitrary: acc) (simp_all add: assms)

lemma concat_map_if:
  "concat (map (\<lambda>x. if P x then [h x] else []) xs) = map h (filter P xs)"
  by (induction xs) simp_all

lemma faq_docs_eq:
  "faq_docs u t c faqs =
     map (\<lambda>f. faq_doc u t c (strip (question f)) (strip (answer f)))
       (filter (\<lambda>f. strip (question f) \<noteq> [] \<and> strip (answer f) \<noteq> []) faqs)"
proof -
  have "faq_docs u t c faqs =
     concat (map (\<lambda>f. if strip (question f) \<noteq> [] \<and> strip (answer f) \<noteq> []
                       then [faq_doc u t c (strip (question f)) (strip (answer f))] else []) faqs)"
    unfolding faq_docs_def
    by (subst foldl_append_step [where g = "\<lambda>f. if strip (question f) \<noteq> [] \<and> strip (answer f) \<noteq> []
                       then [faq_doc u t c (strip (question f)) (strip (answer f))] else []"])
       (simp_all add: faq_step_def Let_def)
  then show ?thesis by (simp only: concat_map_if)
qed

lemma note_docs_eq:
  "note_docs u t c ns =
     map (\<lambda>n. note_doc u t c (context_prefix c t @ ''Important: '' @ n))
       (filter (\<lambda>n. MIN_CHUNK_SIZE \<le> length n) ns)"
proof -
  have "note_docs u t c ns =
     concat (map (\<lambda>n. if MIN_CHUNK_SIZE \<le> length n
                       then [note_doc u t c (context_prefix c t @ ''Important: '' @ n)] else []) ns)"
    unfolding note_docs_def
    by (subst foldl_append_step [where g = "\<lambda>n. if MIN_CHUNK_SIZE \<le> length n
                       then [note_doc u t c (context_prefix c t @ ''Important: '' @ n)] else []"])
       (simp_all add: note_step_def)
  then show ?thesis by (simp only: concat_map_if)
qed

lemma section_docs_eq:
  "section_docs u t c secs = concat (map (section_step u t c []) secs)"
  unfolding section_docs_def
  by (subst foldl_append_step [where g = "section_step u t c []"])
     (simp_all add: section_step_def Let_def)

lemma chunk_type_docs [simp]:
  "chunk_type (faq_doc u t c q a) = ''faq''"
  "chunk_type (steps_doc u t c b) = ''steps''"
  "chunk_type (section_doc u t c h b) = ''section''"
  "chunk_type (text_doc u t c b) = ''text''"
  "chunk_type (note_doc u t c b) = ''note''"
  by (simp_all add: chunk_type_def metadata_get_def faq_doc_def steps_doc_def section_doc_def
      text_doc_def note_doc_def)

lemma faq_docs_type: "d \<in> set (faq_docs u t c faqs) \<Longrightarrow> chunk_type d = ''faq''"
  by (auto simp: faq_docs_eq)

lemma note_docs_type: "d \<in> set (note_docs u t c ns) \<Longrightarrow> chunk_type d = ''note''"
  by (auto simp: note_docs_eq)

lemma section_docs_type: "d \<in> set (section_docs u t c secs) \<Longrightarrow> chunk_type d = ''section''"
  by (auto simp: section_docs_eq section_step_def Let_def split: if_splits)

lemma fallback_docs_type: "d \<in> set (fallback_docs u t c docs ft) \<Longrightarrow> chunk_type d = ''text''"
  by (auto simp: fallback_docs_def split: if_splits)

lemma steps_step_type:
  assumes "\<forall>d\<in>set (fst st). chunk_type d = ''steps''"
  shows "\<forall>d\<in>set (fst (steps_step u t c st x)). chunk_type d = ''steps''"
  using assms by (auto simp: steps_step_def Let_def)

lemma foldl_steps_step_type:
  "\<forall>d\<in>set (fst st). chunk_type d = ''steps'' \<Longrightarrow>
   \<forall>d\<in>set (fst (foldl (steps_step u t c) st xs)). chunk_type d = ''steps''"
proof (induction xs arbitrary: st)
  case Nil
  then show ?case by simp
next
  case (Cons x xs)
  from Cons.prems have "\<forall>d\<in>set (fst (steps_step u t c st x)). chunk_type d = ''steps''"
    by (rule steps_step_type)
  then show ?case using Cons.IH by simp
qed

lemma steps_docs_type: "d \<in> set (steps_docs u t c stps) \<Longrightarrow> chunk_type d = ''steps''"
  using foldl_steps_step_type [of "([], context_prefix c t @ ''How to (step-by-step):'' @ NL)" u t c stps]
  by (auto simp: steps_docs_def Let_def split: if_splits)

lemma create_eq:
  assumes "url a = Some u"
  shows "create_langchain_docs_from_article a =
     Inr (structured_docs u a
          @ fallback_docs u (title a) (category a) (structured_docs u a) (full_text a)
          @ note_docs u (title a) (category a) (notes a))"
  using assms by (simp add: create_langchain_docs_from_article_def Let_def)

lemma structured_docs_type:
  "d \<in> set (structured_docs u a) \<Longrightarrow> chunk_type d \<in> {''faq'', ''steps'', ''section''}"
  by (auto simp: structured_docs_def dest: faq_docs_type steps_docs_type section_docs_type)

lemma filter_all: "(\<And>x. x \<in> set xs \<Longrightarrow> P x) \<Longrightarrow> filter P xs = xs"
  by (induction xs) simp_all

lemma filter_none: "(\<And>x. x \<in> set xs \<Longrightarrow> \<not> P x) \<Longrightarrow> filter P xs = []"
  by (induction xs) simp_all

lemma chunk_by_sentences_Nil: "chunk_by_sentences [] m ov = []"
  by (simp add: chunk_by_sentences_def candidate_chunks_def re_split_sentences_def
      pack_step_def strip_Nil)

lemma fallback_docs_eq:
  "fallback_docs u t c docs ft =
     (if docs = []
      then map (\<lambda>tc. text_doc u t c (context_prefix c t @ tc))
             (chunk_by_sentences ft MAX_CHUNK_SIZE CHUNK_OVERLAP)
      else [])"
  by (simp add: fallback_docs_def chunk_by_sentences_Nil)

subsection \<open>FAQ chunks\<close>

text \<open>
  Claim C10: for an article with a \<open>url\<close>, the chunker returns, and the \<open>faq\<close> chunks of its
  result are, in the order of the article, one chunk for each FAQ pair whose question and
  answer are both non-empty once stripped, built from the stripped question and answer;
  a pair whose question or answer is empty or whitespace only gives no chunk.
\<close>

theorem faq_chunks:
  assumes "url a = Some u"
  shows "\<exists>ds. create_langchain_docs_from_article a = Inr ds \<and>
     filter (\<lambda>d. chunk_type d = ''faq'') ds =
       map (\<lambda>f. \<lparr>page_content = ''['' @ category a @ ''] '' @ title a @ [CHR 0x0A]
                      @ ''Q: '' @ strip (question f) @ [CHR 0x0A] @ ''A: '' @ strip (answer f),
                   metadata = [(''url'', u), (''title'', title a), (''category'', category a),
                     (''chunk_type'', ''faq''), (''question'', strip (question f)),
                     (''source'', u)]\<rparr>)
         (filter (\<lambda>f. strip (question f) \<noteq> [] \<and> strip (answer f) \<noteq> []) (faq_pairs a))"
proof -
  let ?t = "title a" and ?c = "category a"
  let ?is = "\<lambda>d. chunk_type d = ''faq''"
  have f1: "filter ?is (faq_docs u ?t ?c (faq_pairs a)) = faq_docs u ?t ?c (faq_pairs a)"
    by (rule filter_all) (rule faq_docs_type)
  have f2: "filter ?is (steps_docs u ?t ?c (steps a)) = []"
    by (rule filter_none) (auto dest: steps_docs_type)
  have f3: "filter ?is (section_docs u ?t ?c (sections a)) = []"
    by (rule filter_none) (auto dest: section_docs_type)
  have f4: "filter ?is (fallback_docs u ?t ?c (structured_docs u a) (full_text a)) = []"
    by (rule filter_none) (auto dest: fallback_docs_type)
  have f5: "filter ?is (note_docs u ?t ?c (notes a)) = []"
    by (rule filter_none) (auto dest: note_docs_type)
  have f0: "filter ?is (structured_docs u a) = faq_docs u ?t ?c (faq_pairs a)"
    by (simp only: filter_append structured_docs_def f1 f2 f3 append_Nil2)
  have "filter ?is (structured_docs u a
          @ fallback_docs u ?t ?c (structured_docs u a) (full_text a)
          @ note_docs u ?t ?c (notes a)) = faq_docs u ?t ?c (faq_pairs a)"
    by (simp only: filter_append f0 f4 f5 append_Nil2)
  then show ?thesis
    unfolding create_eq [OF assms]
    by (simp add: faq_docs_eq faq_doc_def context_prefix_def NL_def)
qed

theorem faq_chunks_witness:
  "url faq_article = Some ''https://www.dbs.com.sg/c'' \<and>
   create_langchain_docs_from_article faq_article =
     Inr [\<lparr>page_content = ''[Banking] PayNow FAQ'' @ [CHR 0x0A] @ ''Q: Is it free?'' @ [CHR 0x0A] @ ''A: Yes.'',
           metadata = [(''url'', ''https://www.dbs.com.sg/c''), (''title'', ''PayNow FAQ''),
             (''category'', ''Banking''), (''chunk_type'', ''faq''), (''question'', ''Is it free?''),
             (''source'', ''https://www.dbs.com.sg/c'')]\<rparr>]"
proof -
  have h: "url faq_article = Some ''https://www.dbs.com.sg/c''"
    by (simp add: faq_article_def)
  have ev: "create_langchain_docs_from_article faq_article =
     Inr [\<lparr>page_content = ''[Banking] PayNow FAQ'' @ [CHR 0x0A] @ ''Q: Is it free?'' @ [CHR 0x0A] @ ''A: Yes.'',
           metadata = [(''url'', ''https://www.dbs.com.sg/c''), (''title'', ''PayNow FAQ''),
             (''category'', ''Banking''), (''chunk_type'', ''faq''), (''question'', ''Is it free?''),
             (''source'', ''https://www.dbs.com.sg/c'')]\<rparr>]"
    by code_simp
  show ?thesis using h ev faq_chunks [OF h] by simp
qed

subsection \<open>The full text fallback\<close>

text \<open>
  Claim C2, as the code has it. The claim as stated (\<open>text\<close> chunks appear if and only if
  the FAQ, steps and sections strategies produced no chunk) fails from right to left: an
  article with no steps, no FAQ pairs, no sections and a full text of 30 characters has no
  chunk of the three strategies and no \<open>text\<close> chunk either, since sentence packing drops
  pieces shorter than 50 characters.
\<close>

theorem fallback_iff_counterexample:
  "length (full_text short_article) = 30 \<and>
   structured_docs ''https://www.dbs.com.sg/a'' short_article = [] \<and>
   create_langchain_docs_from_article short_article = Inr []"
  by code_simp

text \<open>
  Claim C2, amended: for an article with a \<open>url\<close>, the chunker returns; the chunks of type
  \<open>faq\<close>, \<open>steps\<close> and \<open>section\<close> of its result are those of the three strategies; its
  \<open>text\<close> chunks are one per piece of the sentence packing of the full text when the three
  strategies produced no chunk, and none otherwise. So a \<open>text\<close> chunk appears if and only
  if the three strategies produced no chunk and the sentence packing of the full text
  gives at least one piece.
\<close>

theorem fallback_chunks:
  assumes "url a = Some u"
  shows "\<exists>ds. create_langchain_docs_from_article a = Inr ds \<and>
     filter (\<lambda>d. chunk_type d \<in> {''faq'', ''steps'', ''section''}) ds = structured_docs u a \<and>
     filter (\<lambda>d. chunk_type d = ''text'') ds =
       (if structured_docs u a = []
        then map (\<lambda>tc. \<lparr>page_content = ''['' @ category a @ ''] '' @ title a @ [CHR 0x0A] @ tc,
                        metadata = [(''url'', u), (''title'', title a), (''category'', category a),
                          (''chunk_type'', ''text''), (''source'', u)]\<rparr>)
               (chunk_by_sentences (full_text a) 1000 150)
        else []) \<and>
     ((\<exists>d\<in>set ds. chunk_type d = ''text'') \<longleftrightarrow>
        structured_docs u a = [] \<and> chunk_by_sentences (full_text a) 1000 150 \<noteq> [])"
proof -
  let ?t = "title a" and ?c = "category a"
  let ?S = "structured_docs u a"
  let ?F = "fallback_docs u ?t ?c ?S (full_text a)"
  let ?N = "note_docs u ?t ?c (notes a)"
  let ?st = "\<lambda>d. chunk_type d \<in> {''faq'', ''steps'', ''section''}"
  let ?tx = "\<lambda>d. chunk_type d = ''text''"
  have s1: "filter ?st ?S = ?S" by (rule filter_all) (rule structured_docs_type)
  have s2: "filter ?st ?F = []" by (rule filter_none) (auto dest: fallback_docs_type)
  have s3: "filter ?st ?N = []" by (rule filter_none) (auto dest: note_docs_type)
  have t1: "filter ?tx ?S = []" by (rule filter_none) (auto dest: structured_docs_type)
  have t2: "filter ?tx ?F = ?F" by (rule filter_all) (rule fallback_docs_type)
  have t3: "filter ?tx ?N = []" by (rule filter_none) (auto dest: note_docs_type)
  have a: "filter ?st (?S @ ?F @ ?N) = ?S"
    by (simp only: filter_append s1 s2 s3 append_Nil2)
  have b: "filter ?tx (?S @ ?F @ ?N) = ?F"
    by (simp only: filter_append t1 t2 t3 append_Nil2 append_Nil)
  have F: "?F = (if ?S = []
        then map (\<lambda>tc. \<lparr>page_content = ''['' @ ?c @ ''] '' @ ?t @ [CHR 0x0A] @ tc,
                        metadata = [(''url'', u), (''title'', ?t), (''category'', ?c),
                          (''chunk_type'', ''text''), (''source'', u)]\<rparr>)
               (chunk_by_sentences (full_text a) 1000 150)
        else [])"
    by (simp add: fallback_docs_eq text_doc_def context_prefix_def NL_def MAX_CHUNK_SIZE_def
        CHUNK_OVERLAP_def)
  have "(\<exists>d\<in>set (?S @ ?F @ ?N). ?tx d) \<longleftrightarrow> filter ?tx (?S @ ?F @ ?N) \<noteq> []"
    by (simp only: filter_empty_conv) blast
  also have "\<dots> \<longleftrightarrow> ?F \<noteq> []" by (simp only: b)
  also have "\<dots> \<longleftrightarrow> ?S = [] \<and> chunk_by_sentences (full_text a) 1000 150 \<noteq> []"
    by (subst F) simp
  finally have c: "(\<exists>d\<in>set (?S @ ?F @ ?N). ?tx d) \<longleftrightarrow>
      ?S = [] \<and> chunk_by_sentences (full_text a) 1000 150 \<noteq> []" .
  show ?thesis
    unfolding create_eq [OF assms] using a b c F by (intro exI conjI) (auto simp only:)
qed

theorem fallback_chunks_witness:
  "url plain_article = Some ''https://www.dbs.com.sg/b'' \<and>
   create_langchain_docs_from_article plain_article =
     Inr [\<lparr>page_content = ''[Cards] Fees'' @ [CHR 0x0A] @ three_sentences,
           metadata = [(''url'', ''https://www.dbs.com.sg/b''), (''title'', ''Fees''),
             (''category'', ''Cards''), (''chunk_type'', ''text''),
             (''source'', ''https://www.dbs.com.sg/b'')]\<rparr>]"
proof -
  have h: "url plain_article = Some ''https://www.dbs.com.sg/b''"
    by (simp add: plain_article_def)
  have s: "structured_docs ''https://www.dbs.com.sg/b'' plain_article = []" by code_simp
  have n: "note_docs ''https://www.dbs.com.sg/b'' ''Fees'' ''Cards'' [] = []" by code_simp
  have c: "chunk_by_sentences three_sentences 1000 150 = [three_sentences]" by code_simp
  have tc: "title plain_article = ''Fees''" "category plain_article = ''Cards''"
    "full_text plain_article = three_sentences" "notes plain_article = []"
    by (simp_all add: plain_article_def)
  from fallback_chunks [OF h] obtain ds where
    ds: "create_langchain_docs_from_article plain_article = Inr ds"
    and tx: "filter (\<lambda>d. chunk_type d = ''text'') ds =
       (if structured_docs ''https://www.dbs.com.sg/b'' plain_article = []
        then map (\<lambda>tc. \<lparr>page_content = ''['' @ category plain_article @ ''] '' @ title plain_article @ [CHR 0x0A] @ tc,
                        metadata = [(''url'', ''https://www.dbs.com.sg/b''), (''title'', title plain_article), (''category'', category plain_article),
                          (''chunk_type'', ''text''), (''source'', ''https://www.dbs.com.sg/b'')]\<rparr>)
               (chunk_by_sentences (full_text plain_article) 1000 150)
        else [])"
    by blast
  have "ds = fallback_docs ''https://www.dbs.com.sg/b'' ''Fees'' ''Cards'' [] three_sentences"
    using ds by (simp add: create_eq [OF h] s n tc)
  moreover have "filter (\<lambda>d. chunk_type d = ''text'') ds = ds"
    unfolding calculation by (rule filter_all) (rule fallback_docs_type)
  ultimately show ?thesis using h ds tx by (simp add: s c tc)
qed

subsection \<open>The FAQ scenario\<close>

text \<open>
  Claim C5: the article with the one FAQ pair (\<open>What is PayNow?\<close>,
  \<open>PayNow is a funds transfer service.\<close>), category \<open>Banking - PayNow\<close>, title
  \<open>PayNow FAQ\<close>, no steps, no sections and only notes shorter than 50 characters, whatever
  its url and full text, gives exactly one chunk: of type \<open>faq\<close>, with the content of the
  scenario and the question in its metadata.
\<close>

theorem paynow_scenario:
  assumes "\<forall>n\<in>set ns. length n < 50"
  shows "create_langchain_docs_from_article
      \<lparr>url = Some u, title = ''PayNow FAQ'', category = ''Banking - PayNow'', full_text = ft,
       steps = [],
       faq_pairs = [\<lparr>question = ''What is PayNow?'',
                     answer = ''PayNow is a funds transfer service.''\<rparr>],
       sections = [], notes = ns\<rparr> =
     Inr [\<lparr>page_content = ''[Banking - PayNow] PayNow FAQ'' @ [CHR 0x0A] @ ''Q: What is PayNow?''
             @ [CHR 0x0A] @ ''A: PayNow is a funds transfer service.'',
           metadata = [(''url'', u), (''title'', ''PayNow FAQ''), (''category'', ''Banking - PayNow''),
             (''chunk_type'', ''faq''), (''question'', ''What is PayNow?''), (''source'', u)]\<rparr>]"
proof -
  have q: "strip ''What is PayNow?'' = ''What is PayNow?''" by code_simp
  have a: "strip ''PayNow is a funds transfer service.'' = ''PayNow is a funds transfer service.''"
    by code_simp
  have n: "note_docs u ''PayNow FAQ'' ''Banking - PayNow'' ns = []"
    unfolding note_docs_eq using assms by (auto simp: MIN_CHUNK_SIZE_def filter_empty_conv not_le)
  have f: "faq_docs u ''PayNow FAQ'' ''Banking - PayNow''
             [\<lparr>question = ''What is PayNow?'', answer = ''PayNow is a funds transfer service.''\<rparr>]
           = [faq_doc u ''PayNow FAQ'' ''Banking - PayNow'' ''What is PayNow?''
                ''PayNow is a funds transfer service.'']"
    unfolding faq_docs_eq by (simp add: q a)
  have s: "steps_docs u ''PayNow FAQ'' ''Banking - PayNow'' [] = []"
    by (simp add: steps_docs_def)
  have e: "section_docs u ''PayNow FAQ'' ''Banking - PayNow'' [] = []"
    by (simp add: section_docs_def)
  show ?thesis
    by (simp add: create_langchain_docs_from_article_def Let_def structured_docs_def f s e n
        fallback_docs_def faq_doc_def context_prefix_def NL_def)
qed

theorem paynow_scenario_witness:
  "length ''Call us.'' < 50 \<and>
   create_langchain_docs_from_article
      \<lparr>url = Some ''https://www.dbs.com.sg/p'', title = ''PayNow FAQ'',
       category = ''Banking - PayNow'', full_text = ''PayNow.'', steps = [],
       faq_pairs = [\<lparr>question = ''What is PayNow?'',
                     answer = ''PayNow is a funds transfer service.''\<rparr>],
       sections = [], notes = [''Call us.'']\<rparr> =
     Inr [\<lparr>page_content = ''[Banking - PayNow] PayNow FAQ'' @ [CHR 0x0A] @ ''Q: What is PayNow?''
             @ [CHR 0x0A] @ ''A: PayNow is a funds transfer service.'',
           metadata = [(''url'', ''https://www.dbs.com.sg/p''), (''title'', ''PayNow FAQ''),
             (''category'', ''Banking - PayNow''), (''chunk_type'', ''faq''),
             (''question'', ''What is PayNow?''), (''source'', ''https://www.dbs.com.sg/p'')]\<rparr>]"
proof -
  have h: "\<forall>n\<in>set [''Call us.'']. length n < 50" by simp
  show ?thesis
    using paynow_scenario [OF h, of "''https://www.dbs.com.sg/p''" "''PayNow.''"] by simp
qed

subsection \<open>The context line\<close>

lemma prefixed_docs:
  "prefixed c t (faq_doc u t c q a)"
  "prefixed c t (steps_doc u t c (context_prefix c t @ r))"
  "prefixed c t (section_doc u t c h (context_prefix c t @ r))"
  "prefixed c t (text_doc u t c (context_prefix c t @ r))"
  "prefixed c t (note_doc u t c (context_prefix c t @ r))"
  by (simp_all add: prefixed_def faq_doc_def steps_doc_def section_doc_def text_doc_def
      note_doc_def)

lemma faq_docs_prefixed: "d \<in> set (faq_docs u t c faqs) \<Longrightarrow> prefixed c t d"
  by (auto simp: faq_docs_eq prefixed_docs)

lemma note_docs_prefixed: "d \<in> set (note_docs u t c ns) \<Longrightarrow> prefixed c t d"
  by (auto simp: note_docs_eq prefixed_docs)

lemma section_docs_prefixed: "d \<in> set (section_docs u t c secs) \<Longrightarrow> prefixed c t d"
  by (auto simp: section_docs_eq section_step_def Let_def prefixed_docs split: if_splits)

lemma fallback_docs_prefixed: "d \<in> set (fallback_docs u t c docs ft) \<Longrightarrow> prefixed c t d"
  by (auto simp: fallback_docs_def prefixed_docs split: if_splits)

lemma steps_doc_strip_prefixed:
  "prefixed c t (steps_doc u t c (strip (context_prefix c t @ ''How to ('' @ tail)))"
  unfolding strip_step_group by (rule prefixed_docs)

lemma steps_step_inv:
  assumes "steps_inv c t st"
  shows "steps_inv c t (steps_step u t c st x)"
proof -
  from assms obtain tail where sg: "snd st = context_prefix c t @ ''How to ('' @ tail"
    and docs: "\<forall>d\<in>set (fst st). prefixed c t d"
    by (auto simp: steps_inv_def)
  have old: "prefixed c t (steps_doc u t c (strip (snd st)))"
    unfolding sg by (rule steps_doc_strip_prefixed)
  have a: "\<exists>tl. (context_prefix c t @ ''How to (continued):'' @ NL) @ x @ NL
                = context_prefix c t @ ''How to ('' @ tl"
    by simp
  have b: "\<exists>tl. snd st @ x @ NL = context_prefix c t @ ''How to ('' @ tl"
    unfolding sg by simp
  show ?thesis
    unfolding steps_inv_def steps_step_def Let_def
    using a b old docs by (simp split: if_splits)
qed

lemma foldl_steps_step_inv:
  "steps_inv c t st \<Longrightarrow> steps_inv c t (foldl (steps_step u t c) st xs)"
  by (induction xs arbitrary: st) (simp_all add: steps_step_inv)

lemma steps_docs_prefixed:
  assumes "d \<in> set (steps_docs u t c stps)"
  shows "prefixed c t d"
proof -
  let ?st = "foldl (steps_step u t c) ([], context_prefix c t @ ''How to (step-by-step):'' @ NL) stps"
  have "steps_inv c t ([], context_prefix c t @ ''How to (step-by-step):'' @ NL)"
    by (simp add: steps_inv_def)
  then have inv: "steps_inv c t ?st" by (rule foldl_steps_step_inv)
  then obtain tail where sg: "snd ?st = context_prefix c t @ ''How to ('' @ tail"
    and docs: "\<forall>d\<in>set (fst ?st). prefixed c t d"
    by (auto simp: steps_inv_def)
  have "prefixed c t (steps_doc u t c (strip (snd ?st)))"
    unfolding sg by (rule steps_doc_strip_prefixed)
  then show ?thesis using assms docs
    by (auto simp: steps_docs_def Let_def split: if_splits)
qed

lemma all_docs_prefixed:
  assumes "d \<in> set (structured_docs u a
          @ fallback_docs u (title a) (category a) (structured_docs u a) (full_text a)
          @ note_docs u (title a) (category a) (notes a))"
  shows "prefixed (category a) (title a) d"
  using assms
  by (auto simp: structured_docs_def
      dest: faq_docs_prefixed steps_docs_prefixed section_docs_prefixed fallback_docs_prefixed
        note_docs_prefixed)

text \<open>
  Claim C8: for an article with a \<open>url\<close>, the chunker returns, and the content of every
  chunk is not empty and starts with the context line: \<open>[\<close>, the category, \<open>]\<close>, a space,
  the title and a newline.
\<close>

theorem chunks_have_context_line:
  assumes "url a = Some u"
  shows "\<exists>ds. create_langchain_docs_from_article a = Inr ds \<and>
     (\<forall>d\<in>set ds. page_content d \<noteq> [] \<and>
        (\<exists>r. page_content d = ''['' @ category a @ ''] '' @ title a @ [CHR 0x0A] @ r))"
proof -
  have "\<And>d. prefixed (category a) (title a) d \<Longrightarrow> page_content d \<noteq> [] \<and>
        (\<exists>r. page_content d = ''['' @ category a @ ''] '' @ title a @ [CHR 0x0A] @ r)"
    by (auto simp: prefixed_def context_prefix_def NL_def)
  then show ?thesis
    unfolding create_eq [OF assms] using all_docs_prefixed by blast
qed

theorem chunks_have_context_line_witness:
  "url mixed_article = Some ''https://www.dbs.com.sg/e'' \<and>
   (\<exists>ds. create_langchain_docs_from_article mixed_article = Inr ds \<and> length ds = 4 \<and>
      (\<forall>d\<in>set ds. page_content d \<noteq> [] \<and>
         (\<exists>r. page_content d = ''['' @ category mixed_article @ ''] '' @ title mixed_article
                  @ [CHR 0x0A] @ r)))"
proof -
  have h: "url mixed_article = Some ''https://www.dbs.com.sg/e''"
    by (simp add: mixed_article_def)
  have n: "(case create_langchain_docs_from_article mixed_article of
              Inl e \<Rightarrow> False | Inr ds \<Rightarrow> length ds = 4)"
    by code_simp
  show ?thesis
    using h n chunks_have_context_line [OF h] by (auto split: sum.splits)
qed

subsection \<open>Flushing the step buffer\<close>

text \<open>
  Claim C3, as the code has it. The claim as stated (the buffer is flushed before a step
  exactly when the buffer already exceeds 1000 characters) fails: the test of the code adds
  the length of the step to come. With an empty category and title, a buffer of 38
  characters and a step of 990 characters, the buffer is flushed although it is far below
  1000 characters, and the two steps give two chunks, of 37 and 1014 characters.
\<close>

theorem steps_flush_counterexample:
  "length (''[] '' @ [CHR 0x0A] @ ''How to (step-by-step):'' @ [CHR 0x0A] @ ''Step 1: ab'' @ [CHR 0x0A]) = 38 \<and>
   fst (steps_step ''https://www.dbs.com.sg/d'' [] []
     ([], ''[] '' @ [CHR 0x0A] @ ''How to (step-by-step):'' @ [CHR 0x0A] @ ''Step 1: ab'' @ [CHR 0x0A])
     (replicate 990 CHR ''x'')) =
   [\<lparr>page_content = ''[] '' @ [CHR 0x0A] @ ''How to (step-by-step):'' @ [CHR 0x0A] @ ''Step 1: ab'',
     metadata = [(''url'', ''https://www.dbs.com.sg/d''), (''title'', []), (''category'', []),
        (''chunk_type'', ''steps''), (''source'', ''https://www.dbs.com.sg/d'')]\<rparr>] \<and>
   map (\<lambda>d. length (page_content d))
     (steps_docs ''https://www.dbs.com.sg/d'' [] [] (steps long_step_article)) = [37, 1014]"
  by code_simp

text \<open>
  Claim C3, amended: before a step is appended, the buffer is flushed as one \<open>steps\<close> chunk
  (its content stripped) and a new buffer started with the context line and the
  continuation header exactly when the length of the buffer plus the length of the step to
  come exceeds 1000 and the buffer is more than 30 characters longer than the context
  line; after all steps of a non-empty list, the remaining buffer is flushed exactly when,
  stripped, it is more than 30 characters longer than the context line.
\<close>

theorem steps_flush_rule:
  "steps_step u t c (docs, buf) step =
     (if 1000 < int (length buf) + int (length step) \<and>
         length (''['' @ c @ ''] '' @ t @ [CHR 0x0A]) + 30 < length buf
      then (docs @ [\<lparr>page_content = strip buf,
                     metadata = [(''url'', u), (''title'', t), (''category'', c),
                       (''chunk_type'', ''steps''), (''source'', u)]\<rparr>],
            ''['' @ c @ ''] '' @ t @ [CHR 0x0A] @ ''How to (continued):'' @ [CHR 0x0A]
              @ step @ [CHR 0x0A])
      else (docs, buf @ step @ [CHR 0x0A])) \<and>
   steps_docs u t c [] = [] \<and>
   steps_docs u t c (s # ss) =
     (let st = foldl (steps_step u t c)
                 ([], ''['' @ c @ ''] '' @ t @ [CHR 0x0A] @ ''How to (step-by-step):'' @ [CHR 0x0A])
                 (s # ss)
      in if length (''['' @ c @ ''] '' @ t @ [CHR 0x0A]) + 30 < length (strip (snd st))
         then fst st @ [\<lparr>page_content = strip (snd st),
                          metadata = [(''url'', u), (''title'', t), (''category'', c),
                            (''chunk_type'', ''steps''), (''source'', u)]\<rparr>]
         else fst st)"
  by (simp add: steps_step_def steps_docs_def steps_doc_def context_prefix_def NL_def
      MAX_CHUNK_SIZE_def Let_def)

section \<open>Properties of extract\_page\_content\<close>

subsection \<open>Normalized text\<close>

lemma no_ws_run_Cons:
  "no_ws_run (a # r) = ((r = [] \<or> \<not> (isspace a \<and> isspace (hd r))) \<and> no_ws_run r)"
  by (cases r) auto

lemma no_ws_run_append:
  "no_ws_run (a @ b) =
     (no_ws_run a \<and> no_ws_run b \<and> (a = [] \<or> b = [] \<or> \<not> (isspace (last a) \<and> isspace (hd b))))"
proof (induction a)
  case Nil
  then show ?case by simp
next
  case (Cons x a)
  show ?case
  proof (cases "a = []")
    case True
    then show ?thesis by (auto simp: no_ws_run_Cons)
  next
    case False
    then show ?thesis using Cons.IH by (auto simp: no_ws_run_Cons)
  qed
qed

lemma sub_whitespace_hd:
  "s \<noteq> [] \<Longrightarrow> \<not> isspace (hd s) \<Longrightarrow> sub_whitespace s \<noteq> [] \<and> hd (sub_whitespace s) = hd s"
  by (cases s) simp_all

lemma no_ws_run_sub_whitespace: "no_ws_run (sub_whitespace s)"
proof (induction s rule: sub_whitespace.induct)
  case 1
  then show ?case by simp
next
  case (2 c cs)
  show ?case
  proof (cases "isspace c")
    case True
    let ?r = "dropWhile isspace cs"
    have run: "no_ws_run (sub_whitespace ?r)" using 2(1) True by simp
    have "sub_whitespace ?r = [] \<or> \<not> isspace (hd (sub_whitespace ?r))"
    proof (cases "?r = []")
      case True
      then have "sub_whitespace ?r = []" by (simp only: sub_whitespace.simps)
      then show ?thesis by blast
    next
      case False
      then have "\<not> isspace (hd ?r)" by (rule hd_dropWhile)
      with False show ?thesis using sub_whitespace_hd [of ?r] by simp
    qed
    then show ?thesis using True run by (auto simp: no_ws_run_Cons)
  next
    case False
    then show ?thesis using 2(2) by (simp add: no_ws_run_Cons)
  qed
qed

lemma no_ws_run_strip: "no_ws_run s \<Longrightarrow> no_ws_run (strip s)"
proof -
  assume s: "no_ws_run s"
  have "no_ws_run (takeWhile isspace s @ lstrip s)" using s by (simp add: lstrip_def)
  then have l: "no_ws_run (lstrip s)" by (simp only: no_ws_run_append)
  have "no_ws_run (rstrip (lstrip s) @ rev (takeWhile isspace (rev (lstrip s))))"
    using l rstrip_split [of "lstrip s"] by simp
  then have "no_ws_run (rstrip (lstrip s))" by (simp only: no_ws_run_append)
  then show ?thesis by (simp add: strip_def)
qed

lemma normalized_strip: "no_ws_run s \<Longrightarrow> normalized (strip s)"
  using strip_ends [of s] by (auto simp: normalized_def no_ws_run_strip)

lemma normalized_clean_text: "normalized (clean_text s)"
  unfolding clean_text_def by (rule normalized_strip) (rule no_ws_run_sub_whitespace)

lemma normalized_join:
  assumes "\<forall>p\<in>set ps. normalized p \<and> p \<noteq> []"
  shows "normalized (join '' '' ps) \<and> (ps \<noteq> [] \<longrightarrow> join '' '' ps \<noteq> [])"
  using assms
proof (induction "'' ''" ps rule: join.induct)
  case 1
  then show ?case by (simp add: normalized_def)
next
  case (2 p)
  then show ?case by simp
next
  case (3 p q ps)
  let ?J = "join '' '' (q # ps)"
  have J: "normalized ?J" "?J \<noteq> []" using 3 by simp_all
  have p: "normalized p" "p \<noteq> []" using 3(2) by simp_all
  have sp: "isspace CHR '' ''" by (simp add: isspace_def)
  have "no_ws_run ('' '' @ ?J)" using J by (simp add: no_ws_run_Cons normalized_def)
  then have run: "no_ws_run (p @ '' '' @ ?J)"
    using p J by (subst no_ws_run_append) (simp add: normalized_def)
  have "hd (p @ '' '' @ ?J) = hd p" "last (p @ '' '' @ ?J) = last ?J"
    using p J by simp_all
  then show ?case using run p J by (simp add: normalized_def)
qed

lemma py_replace_hd:
  assumes "old \<noteq> []" and "isspace (hd old)" and "s \<noteq> []" and "\<not> isspace (hd s)"
  shows "py_replace old new s = hd s # py_replace old new (tl s)"
proof -
  obtain x xs where s: "s = x # xs" using assms(3) by (cases s) auto
  obtain y ys where old: "old = y # ys" using assms(1) by (cases old) auto
  have "x \<noteq> y" using assms(2,4) s old by auto
  then have "take (length old) (x # xs) \<noteq> old" using old by auto
  then show ?thesis using s assms(1) by simp
qed

lemma tail_clean_drop: "tail_clean s \<Longrightarrow> tail_clean (drop n s)"
proof -
  assume a: "tail_clean s"
  then have "no_ws_run (take n s @ drop n s)" by (simp add: tail_clean_def)
  then have "no_ws_run (drop n s)" by (simp only: no_ws_run_append)
  moreover have "drop n s = [] \<or> \<not> isspace (last (drop n s))"
    using a by (auto simp: tail_clean_def)
  ultimately show ?thesis by (simp add: tail_clean_def)
qed

lemma tail_clean_py_replace_gen:
  assumes "old \<noteq> []" and "isspace (hd old)" and "tail_clean s" and "new = []"
  shows "tail_clean (py_replace old new s)"
  using assms
proof (induction old new s rule: py_replace.induct)
  case (1 old new)
  then show ?case by (simp add: tail_clean_def)
next
  case (2 old new c cs)
  note ne = "2.prems"(1) and sp = "2.prems"(2) and tc = "2.prems"(3) and nw = "2.prems"(4)
  show ?case
  proof (cases "take (length old) (c # cs) = old")
    case True
    have "tail_clean (drop (length old) (c # cs))" using tc by (rule tail_clean_drop)
    then have "tail_clean (py_replace old new (drop (length old) (c # cs)))"
      using "2.IH"(2) [OF ne True ne sp _ nw] by simp
    then show ?thesis using True ne nw by simp
  next
    case False
    have cs: "tail_clean cs" using tail_clean_drop [OF tc, of 1] by simp
    have R: "tail_clean (py_replace old new cs)"
      using "2.IH"(3) [OF ne False ne sp cs nw] .
    have eq: "py_replace old new (c # cs) = c # py_replace old new cs"
      using False ne by simp
    show ?thesis
    proof (cases "isspace c")
      case True
      then have n: "cs \<noteq> []" and h: "\<not> isspace (hd cs)"
        using tc by (auto simp: tail_clean_def no_ws_run_Cons)
      have "py_replace old new cs = hd cs # py_replace old new (tl cs)"
        using ne sp n h by (rule py_replace_hd)
      then show ?thesis using R h unfolding eq
        by (auto simp: tail_clean_def no_ws_run_Cons)
    next
      case False
      then show ?thesis using R unfolding eq by (auto simp: tail_clean_def no_ws_run_Cons)
    qed
  qed
qed

lemma tail_clean_py_replace:
  assumes "old \<noteq> []" and "isspace (hd old)" and "tail_clean s"
  shows "tail_clean (py_replace old [] s)"
  using assms by (intro tail_clean_py_replace_gen) simp_all

lemma normalized_py_replace:
  assumes "old \<noteq> []" and "isspace (hd old)" and "normalized s"
  shows "normalized (py_replace old [] s)"
proof (cases "s = []")
  case True
  then show ?thesis using assms(1) by (simp add: normalized_def)
next
  case False
  then have h: "\<not> isspace (hd s)" using assms(3) by (simp add: normalized_def)
  have "tail_clean s" using assms(3) by (auto simp: normalized_def tail_clean_def)
  then have t: "tail_clean (py_replace old [] s)"
    using assms(1,2) by (intro tail_clean_py_replace)
  have "py_replace old [] s = hd s # py_replace old [] (tl s)"
    using assms(1,2) False h by (rule py_replace_hd)
  then show ?thesis using t h by (auto simp: normalized_def tail_clean_def)
qed

lemma normalized_extract_title: "normalized (extract_title sp)"
  by (auto simp: extract_title_def normalized_clean_text isspace_def normalized_def [of "[]"]
      intro!: normalized_py_replace split: option.splits)

subsection \<open>The fields of the record\<close>

lemma extract_steps_normalized:
  "s \<in> set (foldl extract_steps_step [] raws) \<Longrightarrow> normalized s"
proof -
  have "foldl extract_steps_step [] raws =
        [] @ concat (map (\<lambda>raw. if clean_text raw \<noteq> [] \<and> length (clean_text raw) > 5
                                 then [clean_text raw] else []) raws)"
    by (rule foldl_append_step) (simp add: extract_steps_step_def Let_def)
  then show "s \<in> set (foldl extract_steps_step [] raws) \<Longrightarrow> normalized s"
    by (auto simp: normalized_clean_text split: if_splits)
qed

lemma extract_notes_normalized:
  "s \<in> set (foldl extract_notes_step [] raws) \<Longrightarrow> normalized s"
proof -
  have "foldl extract_notes_step [] raws =
        [] @ concat (map (\<lambda>raw. if clean_text raw \<noteq> [] \<and> length (clean_text raw) > 10
                                 then [clean_text raw] else []) raws)"
    by (rule foldl_append_step) (simp add: extract_notes_step_def Let_def)
  then show "s \<in> set (foldl extract_notes_step [] raws) \<Longrightarrow> normalized s"
    by (auto simp: normalized_clean_text split: if_splits)
qed

lemma collect_answer_parts:
  "\<forall>p\<in>set parts. normalized p \<and> p \<noteq> [] \<Longrightarrow>
   \<forall>p\<in>set (collect_answer parts sibs). normalized p \<and> p \<noteq> []"
proof (induction parts sibs rule: collect_answer.induct)
  case (1 answer_parts)
  then show ?case by simp
next
  case (2 answer_parts sibling siblings)
  define t where "t = clean_text (tag_text sibling)"
  define stop where "stop = (tag_name sibling \<in> set [''h1'', ''h2'', ''h3'', ''h4''] \<or> t = []
      \<or> (endswith_qmark t \<and> length t > 10))"
  show ?case
  proof (cases stop)
    case True
    then have "collect_answer answer_parts (sibling # siblings) = answer_parts"
      by (auto simp: stop_def t_def Let_def)
    then show ?thesis using "2.prems" by simp
  next
    case False
    then have c1: "tag_name sibling \<notin> set [''h1'', ''h2'', ''h3'', ''h4'']" and c2: "t \<noteq> []"
      and c3: "\<not> (endswith_qmark t \<and> length t > 10)"
      by (auto simp: stop_def)
    have new: "\<forall>p\<in>set (answer_parts @ [t]). normalized p \<and> p \<noteq> []"
      using "2.prems" c2 by (simp add: t_def normalized_clean_text)
    show ?thesis
    proof (cases "length (answer_parts @ [t]) \<ge> 5")
      case True
      then have "collect_answer answer_parts (sibling # siblings) = answer_parts @ [t]"
        using c1 c2 c3 by (auto simp: t_def Let_def)
      then show ?thesis using new by (simp only:)
    next
      case False
      then have "collect_answer answer_parts (sibling # siblings)
                   = collect_answer (answer_parts @ [t]) siblings"
        using c1 c2 c3 by (auto simp: t_def Let_def)
      moreover have "\<forall>p\<in>set (collect_answer (answer_parts @ [t]) siblings).
          normalized p \<and> p \<noteq> []"
        using "2.IH" [OF c1 t_def c2 c3 refl False new] .
      ultimately show ?thesis by (simp only:)
    qed
  qed
qed

lemma collect_content_parts:
  "\<forall>p\<in>set parts. normalized p \<and> p \<noteq> [] \<Longrightarrow>
   \<forall>p\<in>set (collect_content parts sibs). normalized p \<and> p \<noteq> []"
proof (induction parts sibs rule: collect_content.induct)
  case (1 content_parts)
  then show ?case by simp
next
  case (2 content_parts sibling siblings)
  define t where "t = clean_text (tag_text sibling)"
  define parts where
    "parts = (if t \<noteq> [] \<and> length t > 3 then content_parts @ [t] else content_parts)"
  show ?case
  proof (cases "tag_name sibling \<in> set [''h2'', ''h3'']")
    case True
    then have "collect_content content_parts (sibling # siblings) = content_parts"
      by (simp only: collect_content.simps if_True)
    then show ?thesis using "2.prems" by (simp only:)
  next
    case False
    have new: "\<forall>p\<in>set parts. normalized p \<and> p \<noteq> []"
      using "2.prems" by (simp add: parts_def t_def normalized_clean_text)
    have "collect_content content_parts (sibling # siblings) = collect_content parts siblings"
      using False by (simp only: collect_content.simps if_False Let_def parts_def t_def)
    moreover have "\<forall>p\<in>set (collect_content parts siblings). normalized p \<and> p \<noteq> []"
      using "2.IH" [OF False t_def] new unfolding parts_def by blast
    ultimately show ?thesis by (simp only:)
  qed
qed

lemma if_then_cases:
  "(if A then (if B then y else x) else x) = x \<or> (if A then (if B then y else x) else x) = y"
  by auto

lemma if_else_cases:
  "(if A then x else (if B then y else x)) = x \<or> (if A then x else (if B then y else x)) = y"
  by auto

lemma extract_faq_step_normalized:
  assumes "\<forall>f\<in>set faqs. normalized (question f) \<and> normalized (answer f)"
  shows "\<forall>f\<in>set (extract_faq_step faqs x). normalized (question f) \<and> normalized (answer f)"
proof -
  define t where "t = clean_text (fst x)"
  define parts where "parts = collect_answer [] (snd x)"
  define r where "r = \<lparr>question = t, answer = join '' '' parts\<rparr>"
  have "\<forall>p\<in>set parts. normalized p \<and> p \<noteq> []"
    unfolding parts_def by (rule collect_answer_parts) simp
  then have "normalized (join '' '' parts)" using normalized_join by blast
  then have new: "normalized (question r) \<and> normalized (answer r)"
    by (simp add: r_def t_def normalized_clean_text)
  have "extract_faq_step faqs x = faqs \<or> extract_faq_step faqs x = faqs @ [r]"
    unfolding extract_faq_step_def Let_def r_def t_def parts_def by (rule if_then_cases)
  then show ?thesis
  proof
    assume "extract_faq_step faqs x = faqs"
    then show ?thesis using assms by (simp only:)
  next
    assume "extract_faq_step faqs x = faqs @ [r]"
    then show ?thesis using assms new by (simp only: set_append set_simps) blast
  qed
qed

lemma extract_faqs_normalized:
  "\<forall>f\<in>set faqs. normalized (question f) \<and> normalized (answer f) \<Longrightarrow>
   \<forall>f\<in>set (foldl extract_faq_step faqs xs). normalized (question f) \<and> normalized (answer f)"
proof (induction xs arbitrary: faqs)
  case Nil
  then show ?case by (simp only: foldl_Nil)
next
  case (Cons x xs)
  from Cons.prems have "\<forall>f\<in>set (extract_faq_step faqs x).
      normalized (question f) \<and> normalized (answer f)"
    by (rule extract_faq_step_normalized)
  then have "\<forall>f\<in>set (foldl extract_faq_step (extract_faq_step faqs x) xs).
      normalized (question f) \<and> normalized (answer f)"
    by (rule Cons.IH)
  then show ?case by (simp only: foldl_Cons)
qed

lemma extract_section_step_normalized:
  assumes "\<forall>s\<in>set secs. normalized (heading s) \<and> normalized (content s)"
  shows "\<forall>s\<in>set (extract_section_step secs x). normalized (heading s) \<and> normalized (content s)"
proof -
  define t where "t = clean_text (fst x)"
  define parts where "parts = collect_content [] (snd x)"
  define r where "r = \<lparr>heading = t, content = join '' '' parts\<rparr>"
  have "\<forall>p\<in>set parts. normalized p \<and> p \<noteq> []"
    unfolding parts_def by (rule collect_content_parts) simp
  then have "normalized (join '' '' parts)" using normalized_join by blast
  then have new: "normalized (heading r) \<and> normalized (content r)"
    by (simp add: r_def t_def normalized_clean_text)
  have "extract_section_step secs x = secs \<or> extract_section_step secs x = secs @ [r]"
    unfolding extract_section_step_def Let_def r_def t_def parts_def by (rule if_else_cases)
  then show ?thesis
  proof
    assume "extract_section_step secs x = secs"
    then show ?thesis using assms by (simp only:)
  next
    assume "extract_section_step secs x = secs @ [r]"
    then show ?thesis using assms new by (simp only: set_append set_simps) blast
  qed
qed

lemma extract_sections_normalized:
  "\<forall>s\<in>set secs. normalized (heading s) \<and> normalized (content s) \<Longrightarrow>
   \<forall>s\<in>set (foldl extract_section_step secs xs). normalized (heading s) \<and> normalized (content s)"
proof (induction xs arbitrary: secs)
  case Nil
  then show ?case by (simp only: foldl_Nil)
next
  case (Cons x xs)
  from Cons.prems have "\<forall>s\<in>set (extract_section_step secs x).
      normalized (heading s) \<and> normalized (content s)"
    by (rule extract_section_step_normalized)
  then have "\<forall>s\<in>set (foldl extract_section_step (extract_section_step secs x) xs).
      normalized (heading s) \<and> normalized (content s)"
    by (rule Cons.IH)
  then show ?case by (simp only: foldl_Cons)
qed

lemma normalized_extract_full_text: "normalized (extract_full_text sp)"
  by (simp add: extract_full_text_def normalized_clean_text normalized_def [of "[]"]
      split: option.splits)

lemma take_of_normalized:
  assumes "normalized s"
  shows "no_ws_run (take n s)"
    and "take n s = [] \<or> \<not> isspace (hd (take n s))"
    and "length (take n s) < n \<Longrightarrow> normalized (take n s)"
proof -
  have "no_ws_run (take n s @ drop n s)" using assms by (simp add: normalized_def)
  then show "no_ws_run (take n s)" by (simp only: no_ws_run_append)
  show "take n s = [] \<or> \<not> isspace (hd (take n s))"
    using assms by (cases n; cases s) (auto simp: normalized_def)
  show "length (take n s) < n \<Longrightarrow> normalized (take n s)"
    using assms by (simp add: min_def split: if_splits)
qed

lemma sub_whitespace_replicate:
  "\<not> isspace a \<Longrightarrow> sub_whitespace (replicate n a @ s) = replicate n a @ sub_whitespace s"
  by (induction n) simp_all

lemma clean_text_long:
  "clean_text (replicate 14999 CHR ''a'' @ '' b'') = replicate 14999 CHR ''a'' @ '' b''"
proof -
  have a: "\<not> isspace CHR ''a''" and b: "\<not> isspace CHR ''b''" and sp: "isspace CHR '' ''"
    by (simp_all add: isspace_def)
  have "sub_whitespace (replicate 14999 CHR ''a'' @ '' b'') = replicate 14999 CHR ''a'' @ '' b''"
    using a b sp by (simp add: sub_whitespace_replicate)
  moreover have "lstrip (replicate 14999 CHR ''a'' @ '' b'') = replicate 14999 CHR ''a'' @ '' b''"
    using a by (intro lstrip_id) (simp_all add: hd_append)
  moreover have "rstrip (replicate 14999 CHR ''a'' @ '' b'') = replicate 14999 CHR ''a'' @ '' b''"
    using b by (intro rstrip_id) simp_all
  ultimately show ?thesis by (simp only: clean_text_def strip_def)
qed

lemma sample_steps:
  "foldl extract_steps_step [] (step_texts sample_soup) = [''Step 1: Log in'']"
  by code_simp

lemma sample_faqs:
  "foldl extract_faq_step [] (question_tags sample_soup) =
     [\<lparr>question = ''How do I pay?'', answer = ''Use PayNow. Or cash.''\<rparr>]"
  by code_simp

lemma sample_title: "extract_title sample_soup = ''Digibank help''"
  by code_simp

lemma sample_full_text: "extract_full_text sample_soup = ''Hello world.''"
  by code_simp

text \<open>
  Claim C4, as the code has it. The claim as stated fails for the full text: it is cleaned
  and then cut to its first 15000 characters, and the cut can fall after a space. A main
  region whose text is 14999 letters, a space and one more letter gives a full text of
  15000 characters that ends in the space.
\<close>

theorem full_text_truncated_counterexample:
  "full_text (extract_page_content long_soup ''https://www.dbs.com.sg/f'' ''Cards'') =
     replicate 14999 CHR ''a'' @ '' '' \<and>
   isspace (last (full_text (extract_page_content long_soup ''https://www.dbs.com.sg/f'' ''Cards''))) \<and>
   \<not> normalized (full_text (extract_page_content long_soup ''https://www.dbs.com.sg/f'' ''Cards''))"
proof -
  have "full_text (extract_page_content long_soup ''https://www.dbs.com.sg/f'' ''Cards'') =
     take 15000 (replicate 14999 CHR ''a'' @ '' b'')"
    by (simp add: extract_page_content_def extract_full_text_def long_soup_def clean_text_long)
  then have eq: "full_text (extract_page_content long_soup ''https://www.dbs.com.sg/f'' ''Cards'') =
     replicate 14999 CHR ''a'' @ '' ''"
    by simp
  have sp: "isspace CHR '' ''" by (simp add: isspace_def)
  show ?thesis unfolding eq using sp by (simp add: normalized_def)
qed

text \<open>
  Claim C4, amended: the title, each step, each FAQ question and answer, each section
  heading and content and each note stored by the extractor are whitespace-normalized
  (no two whitespace characters in a row, none at either end). The full text has no two
  whitespace characters in a row and no leading whitespace, and it is whitespace-normalized
  whenever it is shorter than 15000 characters.
\<close>

theorem extracted_text_normalized:
  "normalized (title (extract_page_content sp u c)) \<and>
   (\<forall>s\<in>set (steps (extract_page_content sp u c)). normalized s) \<and>
   (\<forall>f\<in>set (faq_pairs (extract_page_content sp u c)).
      normalized (question f) \<and> normalized (answer f)) \<and>
   (\<forall>s\<in>set (sections (extract_page_content sp u c)).
      normalized (heading s) \<and> normalized (content s)) \<and>
   (\<forall>n\<in>set (notes (extract_page_content sp u c)). normalized n) \<and>
   no_ws_run (full_text (extract_page_content sp u c)) \<and>
   (full_text (extract_page_content sp u c) = [] \<or>
      \<not> isspace (hd (full_text (extract_page_content sp u c)))) \<and>
   (length (full_text (extract_page_content sp u c)) < 15000 \<longrightarrow>
      normalized (full_text (extract_page_content sp u c)))"
proof -
  have sel:
    "title (extract_page_content sp u c) = extract_title sp"
    "steps (extract_page_content sp u c) = foldl extract_steps_step [] (step_texts sp)"
    "faq_pairs (extract_page_content sp u c) = foldl extract_faq_step [] (question_tags sp)"
    "sections (extract_page_content sp u c) = foldl extract_section_step [] (heading_tags sp)"
    "notes (extract_page_content sp u c) = foldl extract_notes_step [] (note_texts sp)"
    "full_text (extract_page_content sp u c) = take 15000 (extract_full_text sp)"
    by (simp_all add: extract_page_content_def)
  note ft = take_of_normalized [OF normalized_extract_full_text, of 15000 sp]
  have faqs: "\<forall>f\<in>set (foldl extract_faq_step [] (question_tags sp)).
      normalized (question f) \<and> normalized (answer f)"
    by (rule extract_faqs_normalized) simp
  have secs: "\<forall>s\<in>set (foldl extract_section_step [] (heading_tags sp)).
      normalized (heading s) \<and> normalized (content s)"
    by (rule extract_sections_normalized) simp
  have stps: "\<forall>s\<in>set (foldl extract_steps_step [] (step_texts sp)). normalized s"
    using extract_steps_normalized by blast
  have nts: "\<forall>n\<in>set (foldl extract_notes_step [] (note_texts sp)). normalized n"
    using extract_notes_normalized by blast
  show ?thesis
    unfolding sel
    using normalized_extract_title [of sp] stps faqs secs nts ft by blast
qed

theorem extracted_text_normalized_witness:
  "normalized (title (extract_page_content sample_soup ''https://www.dbs.com.sg/g'' ''Cards'')) \<and>
   title (extract_page_content sample_soup ''https://www.dbs.com.sg/g'' ''Cards'') = ''Digibank help'' \<and>
   ''Step 1: Log in'' \<in> set (steps (extract_page_content sample_soup ''https://www.dbs.com.sg/g'' ''Cards'')) \<and>
   normalized ''Step 1: Log in'' \<and>
   \<lparr>question = ''How do I pay?'', answer = ''Use PayNow. Or cash.''\<rparr>
     \<in> set (faq_pairs (extract_page_content sample_soup ''https://www.dbs.com.sg/g'' ''Cards'')) \<and>
   normalized ''Use PayNow. Or cash.'' \<and>
   length (full_text (extract_page_content sample_soup ''https://www.dbs.com.sg/g'' ''Cards'')) < 15000 \<and>
   normalized (full_text (extract_page_content sample_soup ''https://www.dbs.com.sg/g'' ''Cards''))"
proof -
  let ?A = "extract_page_content sample_soup ''https://www.dbs.com.sg/g'' ''Cards''"
  have t: "title ?A = ''Digibank help''"
    by (simp add: extract_page_content_def sample_title)
  have s: "''Step 1: Log in'' \<in> set (steps ?A)"
    by (simp add: extract_page_content_def sample_steps)
  have f: "\<lparr>question = ''How do I pay?'', answer = ''Use PayNow. Or cash.''\<rparr> \<in> set (faq_pairs ?A)"
    by (simp add: extract_page_content_def sample_faqs)
  have l: "length (full_text ?A) < 15000"
    by (simp add: extract_page_content_def sample_full_text)
  note n = extracted_text_normalized [of sample_soup "''https://www.dbs.com.sg/g''" "''Cards''"]
  from f n have "normalized (question \<lparr>question = ''How do I pay?'', answer = ''Use PayNow. Or cash.''\<rparr>) \<and>
      normalized (answer \<lparr>question = ''How do I pay?'', answer = ''Use PayNow. Or cash.''\<rparr>)"
    by blast
  then have fa: "normalized ''Use PayNow. Or cash.''" by simp
  show ?thesis using t s f l fa n by blast
qed

section \<open>Properties of format\_docs\<close>

lemma formatted_map:
  "foldl (\<lambda>formatted doc. formatted @ [format_doc doc]) [] docs = map format_doc docs"
proof -
  have "foldl (\<lambda>formatted doc. formatted @ [format_doc doc]) [] docs =
        [] @ concat (map (\<lambda>doc. [format_doc doc]) docs)"
    by (rule foldl_append_step) simp
  then show ?thesis by (simp add: concat_map_singleton)
qed

lemma join_Cons: "join sep (p # ps) = p @ concat (map (\<lambda>q. sep @ q) ps)"
  by (induction ps arbitrary: p) simp_all

lemma stamped_docs [simp]:
  "stamped u (faq_doc u t c q a)"
  "stamped u (steps_doc u t c b)"
  "stamped u (section_doc u t c h b)"
  "stamped u (text_doc u t c b)"
  "stamped u (note_doc u t c b)"
  by (simp_all add: stamped_def metadata_get_def faq_doc_def steps_doc_def section_doc_def
      text_doc_def note_doc_def)

lemma foldl_steps_step_stamped:
  "\<forall>d\<in>set (fst st). stamped u d \<Longrightarrow>
   \<forall>d\<in>set (fst (foldl (steps_step u t c) st xs)). stamped u d"
proof (induction xs arbitrary: st)
  case Nil
  then show ?case by simp
next
  case (Cons x xs)
  from Cons.prems have "\<forall>d\<in>set (fst (steps_step u t c st x)). stamped u d"
    by (auto simp: steps_step_def Let_def)
  then have "\<forall>d\<in>set (fst (foldl (steps_step u t c) (steps_step u t c st x) xs)). stamped u d"
    by (rule Cons.IH)
  then show ?case by (simp only: foldl_Cons)
qed

lemma steps_docs_stamped: "d \<in> set (steps_docs u t c stps) \<Longrightarrow> stamped u d"
  using foldl_steps_step_stamped [of "([], context_prefix c t @ ''How to (step-by-step):'' @ NL)" u t c stps]
  by (auto simp: steps_docs_def Let_def split: if_splits)

lemma all_docs_stamped:
  assumes "d \<in> set (structured_docs u a
          @ fallback_docs u (title a) (category a) (structured_docs u a) (full_text a)
          @ note_docs u (title a) (category a) (notes a))"
  shows "stamped u d"
  using assms
  by (auto simp: structured_docs_def faq_docs_eq note_docs_eq section_docs_eq section_step_def
      fallback_docs_def Let_def dest: steps_docs_stamped split: if_splits)

lemma created_docs_stamped:
  assumes "create_langchain_docs_from_article a = Inr cs" and "d \<in> set cs"
  shows "metadata_get d ''source'' [] = metadata_get d ''url'' []"
proof (cases "url a")
  case None
  then show ?thesis using assms(1) by (simp add: create_langchain_docs_from_article_def)
next
  case (Some u)
  then have "stamped u d" using assms all_docs_stamped [of d u a] by (simp add: create_eq)
  then show ?thesis by (simp add: stamped_def)
qed

text \<open>
  Claim C9: \<open>format_docs\<close> of no chunk is the empty string, and of a sequence of chunks it
  is the entries of the chunks, each \<open>[Source: title]\<close>, a newline, the content, a newline
  and \<open>(URL: source)\<close>, joined by the separator of a rule \<open>---\<close> between two blank lines.
  Title and source are read from the metadata of the chunk, the source under the key
  \<open>url\<close>, which for every chunk that the chunker produced is also what its metadata has
  under the key \<open>source\<close>.
\<close>

theorem format_docs_layout:
  "format_docs [] = [] \<and>
   format_docs (d # ds) =
     (''[Source: '' @ metadata_get d ''title'' [] @ '']'' @ [CHR 0x0A] @ page_content d
        @ [CHR 0x0A] @ ''(URL: '' @ metadata_get d ''url'' [] @ '')'')
     @ concat (map (\<lambda>e. [CHR 0x0A, CHR 0x0A] @ ''---'' @ [CHR 0x0A, CHR 0x0A]
                     @ ''[Source: '' @ metadata_get e ''title'' [] @ '']'' @ [CHR 0x0A]
                     @ page_content e @ [CHR 0x0A] @ ''(URL: '' @ metadata_get e ''url'' [] @ '')'')
                 ds) \<and>
   (create_langchain_docs_from_article a = Inr cs \<longrightarrow>
      (\<forall>e\<in>set cs. metadata_get e ''url'' [] = metadata_get e ''source'' []))"
proof -
  have 1: "format_docs [] = []" by (simp add: format_docs_def)
  have 2: "format_docs (d # ds) =
     format_doc d @ concat (map (\<lambda>e. (NL @ NL @ ''---'' @ NL @ NL) @ format_doc e) ds)"
    unfolding format_docs_def formatted_map by (simp only: list.map join_Cons map_map o_def)
  have 3: "create_langchain_docs_from_article a = Inr cs \<longrightarrow>
      (\<forall>e\<in>set cs. metadata_get e ''url'' [] = metadata_get e ''source'' [])"
    using created_docs_stamped [of a cs] by auto
  show ?thesis using 1 2 3 by (simp add: format_doc_def NL_def Let_def)
qed

theorem format_docs_layout_witness:
  "create_langchain_docs_from_article faq_article =
     Inr [\<lparr>page_content = ''[Banking] PayNow FAQ'' @ [CHR 0x0A] @ ''Q: Is it free?'' @ [CHR 0x0A] @ ''A: Yes.'',
           metadata = [(''url'', ''https://www.dbs.com.sg/c''), (''title'', ''PayNow FAQ''),
             (''category'', ''Banking''), (''chunk_type'', ''faq''), (''question'', ''Is it free?''),
             (''source'', ''https://www.dbs.com.sg/c'')]\<rparr>] \<and>
   format_docs
     [\<lparr>page_content = ''[Banking] PayNow FAQ'' @ [CHR 0x0A] @ ''Q: Is it free?'' @ [CHR 0x0A] @ ''A: Yes.'',
           metadata = [(''url'', ''https://www.dbs.com.sg/c''), (''title'', ''PayNow FAQ''),
             (''category'', ''Banking''), (''chunk_type'', ''faq''), (''question'', ''Is it free?''),
             (''source'', ''https://www.dbs.com.sg/c'')]\<rparr>,
      \<lparr>page_content = ''Second'', metadata = [(''title'', ''T'')]\<rparr>] =
     ''[Source: PayNow FAQ]'' @ [CHR 0x0A] @ ''[Banking] PayNow FAQ'' @ [CHR 0x0A] @ ''Q: Is it free?''
       @ [CHR 0x0A] @ ''A: Yes.'' @ [CHR 0x0A] @ ''(URL: https://www.dbs.com.sg/c)''
       @ [CHR 0x0A, CHR 0x0A] @ ''---'' @ [CHR 0x0A, CHR 0x0A]
       @ ''[Source: T]'' @ [CHR 0x0A] @ ''Second'' @ [CHR 0x0A] @ ''(URL: )''"
proof -
  let ?d = "\<lparr>page_content = ''[Banking] PayNow FAQ'' @ [CHR 0x0A] @ ''Q: Is it free?'' @ [CHR 0x0A] @ ''A: Yes.'',
           metadata = [(''url'', ''https://www.dbs.com.sg/c''), (''title'', ''PayNow FAQ''),
             (''category'', ''Banking''), (''chunk_type'', ''faq''), (''question'', ''Is it free?''),
             (''source'', ''https://www.dbs.com.sg/c'')]\<rparr>"
  let ?e = "\<lparr>page_content = ''Second'', metadata = [(''title'', ''T'')]\<rparr>"
  have ev: "create_langchain_docs_from_article faq_article = Inr [?d]" by code_simp
  show ?thesis
    using ev format_docs_layout [of ?d "[?e]" faq_article "[?d]"]
    by (simp add: metadata_get_def)
qed

end
